theory Spec2Isabelle
  imports Complex_Main
begin

section \<open>Python values\<close>

text \<open>
  A Python \<open>str\<close> is a sequence of Unicode code points, so it is modelled as a list
  of naturals; \<open>str ''abc''\<close> is the ASCII literal of the source.
\<close>

type_synonym pystr = "nat list"

definition str :: "string \<Rightarrow> pystr" where
  "str s = map of_char s"

text \<open>
  What \<open>response.json()\<close> returns.  A finite \<open>float\<close> is carried as the rational it
  denotes; a \<open>dict\<close> is an association list read from the left.
\<close>

datatype json =
    JNull
  | JBool bool
  | JInt int
  | JFloat rat
  | JStr pystr
  | JList "json list"
  | JDict "(pystr \<times> json) list"

datatype py_error = KeyError | TypeError | AttributeError

text \<open>The truth value Python gives a decoded value in \<open>if not data\<close>.\<close>

fun truthy :: "json \<Rightarrow> bool" where
  "truthy JNull = False"
| "truthy (JBool b) = b"
| "truthy (JInt n) = (n \<noteq> 0)"
| "truthy (JFloat q) = (q \<noteq> 0)"
| "truthy (JStr s) = (s \<noteq> [])"
| "truthy (JList xs) = (xs \<noteq> [])"
| "truthy (JDict kvs) = (kvs \<noteq> [])"

text \<open>Sequencing of steps that may raise: the first exception ends the computation.\<close>

definition then_do :: "'e + 'a \<Rightarrow> ('a \<Rightarrow> 'e + 'b) \<Rightarrow> 'e + 'b" where
  "then_do r f = (case r of Inl e \<Rightarrow> Inl e | Inr v \<Rightarrow> f v)"

text \<open>\<open>p in s\<close> on two strings: \<open>p\<close> occurs in \<open>s\<close> as a contiguous piece.\<close>

fun contains_str :: "pystr \<Rightarrow> pystr \<Rightarrow> bool" where
  "contains_str p [] = (p = [])"
| "contains_str p (c # cs) = (take (length p) (c # cs) = p \<or> contains_str p cs)"

text \<open>\<open>k in data\<close> for a string \<open>k\<close>: a key of a dict, an element of a list, a piece of a
  string; every other value is not a container.\<close>

fun py_in :: "pystr \<Rightarrow> json \<Rightarrow> py_error + bool" where
  "py_in k (JDict kvs) = Inr (map_of kvs k \<noteq> None)"
| "py_in k (JList xs) = Inr (JStr k \<in> set xs)"
| "py_in k (JStr s) = Inr (contains_str k s)"
| "py_in k v = Inl TypeError"

text \<open>\<open>data.get(k, d)\<close>: only a dict has the method.\<close>

fun dict_get :: "json \<Rightarrow> pystr \<Rightarrow> json \<Rightarrow> py_error + json" where
  "dict_get (JDict kvs) k d = Inr (case map_of kvs k of None \<Rightarrow> d | Some v \<Rightarrow> v)"
| "dict_get v k d = Inl AttributeError"

text \<open>\<open>data[k]\<close> for a string \<open>k\<close>.\<close>

fun py_subscript :: "json \<Rightarrow> pystr \<Rightarrow> py_error + json" where
  "py_subscript (JDict kvs) k = (case map_of kvs k of None \<Rightarrow> Inl KeyError | Some v \<Rightarrow> Inr v)"
| "py_subscript v k = Inl TypeError"

text \<open>The elements a \<open>for\<close> loop, \<open>len\<close> or \<open>list.extend\<close> sees: those of a list, the
  one-character strings of a string, the keys of a dict.\<close>

fun py_iter :: "json \<Rightarrow> py_error + json list" where
  "py_iter (JList xs) = Inr xs"
| "py_iter (JStr s) = Inr (map (\<lambda>c. JStr [c]) s)"
| "py_iter (JDict kvs) = Inr (map (\<lambda>kv. JStr (fst kv)) kvs)"
| "py_iter v = Inl TypeError"

text \<open>
  Set membership goes through \<open>hash\<close> and \<open>==\<close>: lists and dicts are unhashable, and
  \<open>True\<close>, \<open>1\<close> and \<open>1.0\<close> are one and the same element.
\<close>

datatype key = KNone | KNum rat | KStr pystr

fun hash_key :: "json \<Rightarrow> py_error + key" where
  "hash_key JNull = Inr KNone"
| "hash_key (JBool b) = Inr (KNum (if b then 1 else 0))"
| "hash_key (JInt n) = Inr (KNum (of_int n))"
| "hash_key (JFloat q) = Inr (KNum q)"
| "hash_key (JStr s) = Inr (KStr s)"
| "hash_key (JList xs) = Inl TypeError"
| "hash_key (JDict kvs) = Inl TypeError"

subsection \<open>Strings\<close>

text \<open>\<open>s.split(sep)\<close> for a one-character separator: always at least one segment.\<close>

fun split_on :: "nat \<Rightarrow> pystr \<Rightarrow> pystr list" where
  "split_on sep [] = [[]]"
| "split_on sep (c # cs) =
     (if c = sep then [] # split_on sep cs
      else (case split_on sep cs of
              [] \<Rightarrow> [[c]]
            | seg # segs \<Rightarrow> (c # seg) # segs))"

text \<open>The code points for which \<open>str.isspace\<close> holds; \<open>s.strip()\<close> removes them at both ends.\<close>

definition isspace :: "nat \<Rightarrow> bool" where
  "isspace c \<longleftrightarrow>
     (9 \<le> c \<and> c \<le> 13) \<or> (28 \<le> c \<and> c \<le> 32) \<or> c = 133 \<or> c = 160 \<or> c = 5760 \<or>
     (8192 \<le> c \<and> c \<le> 8202) \<or> c = 8232 \<or> c = 8233 \<or> c = 8239 \<or> c = 8287 \<or> c = 12288"

definition strip :: "pystr \<Rightarrow> pystr" where
  "strip s = rev (dropWhile isspace (rev (dropWhile isspace s)))"

text \<open>\<open>xs[i]\<close> inside a \<open>try\<close> that catches \<open>IndexError\<close>: \<open>None\<close> is the exception.\<close>

definition index :: "'a list \<Rightarrow> nat \<Rightarrow> 'a option" where
  "index xs i = (if i < length xs then Some (xs ! i) else None)"

section \<open>The rate-limited fetcher\<close>

text \<open>
  One attempt of \<open>session.get\<close> followed by \<open>raise_for_status\<close> and \<open>response.json()\<close>
  either yields the decoded payload or raises.  The three handlers of \<open>fetch_json\<close> cover
  every subclass of \<open>Exception\<close>: \<open>ClientResponseError\<close> with its status,
  \<open>asyncio.TimeoutError\<close>, and anything else.
\<close>

datatype outcome =
    Response json
  | ClientResponseError int
  | TimeoutError
  | OtherException

record fetched =
  payload :: json
  slept :: "rat list"
  attempts :: nat

definition retry_statuses :: "int list" where
  "retry_statuses = [429, 500, 502, 503, 504]"

function fetch_attempts ::
  "(nat \<Rightarrow> outcome) \<Rightarrow> nat \<Rightarrow> rat \<Rightarrow> nat \<Rightarrow> rat list \<Rightarrow> fetched" where
  "fetch_attempts get retries backoff_factor attempt zs =
     (if attempt < retries then
        (case get attempt of
           Response data \<Rightarrow> \<lparr>payload = data, slept = zs, attempts = Suc attempt\<rparr>
         | ClientResponseError status \<Rightarrow>
             (if status \<in> set retry_statuses
              then fetch_attempts get retries backoff_factor (Suc attempt)
                     (zs @ [backoff_factor * 2 ^ attempt])
              else \<lparr>payload = JDict [], slept = zs, attempts = Suc attempt\<rparr>)
         | TimeoutError \<Rightarrow>
             fetch_attempts get retries backoff_factor (Suc attempt)
               (zs @ [backoff_factor * 2 ^ attempt])
         | OtherException \<Rightarrow>
             fetch_attempts get retries backoff_factor (Suc attempt)
               (zs @ [backoff_factor * 2 ^ attempt]))
      else \<lparr>payload = JDict [], slept = zs, attempts = attempt\<rparr>)"
  by pat_completeness auto
termination
  by (relation "measure (\<lambda>(get, retries, backoff_factor, attempt, zs). retries - attempt)") auto

text \<open>
  \<open>fetch_json(session, url, params, retries=3, backoff_factor=0.5)\<close>; \<open>get i\<close> is what
  attempt \<open>i\<close> of the request meets.
\<close>

definition fetch_json :: "(nat \<Rightarrow> outcome) \<Rightarrow> nat \<Rightarrow> rat \<Rightarrow> fetched" where
  "fetch_json get retries backoff_factor = fetch_attempts get retries backoff_factor 0 []"

definition retryable :: "outcome \<Rightarrow> bool" where
  "retryable r =
     (case r of
        Response data \<Rightarrow> False
      | ClientResponseError status \<Rightarrow> status \<in> set retry_statuses
      | TimeoutError \<Rightarrow> True
      | OtherException \<Rightarrow> True)"

definition succeeded :: "outcome \<Rightarrow> bool" where
  "succeeded r = (case r of Response data \<Rightarrow> True | _ \<Rightarrow> False)"

definition backoffs :: "rat \<Rightarrow> nat \<Rightarrow> nat \<Rightarrow> rat list" where
  "backoffs backoff_factor a k = map (\<lambda>i. backoff_factor * 2 ^ i) [a..<k]"

section \<open>Configuration and environment\<close>

text \<open>
  What the module reads from outside: the two credentials, the answers of the upstream
  APIs (\<open>http_get env (url, params) i\<close> is what attempt \<open>i\<close> of that request meets), the
  library functions \<open>unicodedata.normalize('NFKD', _)\<close> and the string parser behind
  \<open>pandas.to_numeric\<close>, and the order in which a Python \<open>set\<close> is iterated.
\<close>

type_synonym request = "pystr \<times> (pystr \<times> json) list"

record env =
  GOOGLE_API_KEY :: pystr
  CUSTOM_SEARCH_ENGINE_ID :: "pystr option"
  http_get :: "request \<Rightarrow> nat \<Rightarrow> outcome"
  nfkd :: "pystr \<Rightarrow> pystr"
  parse_number :: "pystr \<Rightarrow> rat option"
  set_iter :: "json list \<Rightarrow> json list"

definition GOOGLE_PLACES_SEARCH_URL :: pystr where
  "GOOGLE_PLACES_SEARCH_URL = str ''https://maps.googleapis.com/maps/api/place/textsearch/json''"

definition GOOGLE_PLACES_DETAILS_URL :: pystr where
  "GOOGLE_PLACES_DETAILS_URL = str ''https://maps.googleapis.com/maps/api/place/details/json''"

definition GOOGLE_CUSTOM_SEARCH_URL :: pystr where
  "GOOGLE_CUSTOM_SEARCH_URL = str ''https://www.googleapis.com/customsearch/v1''"

definition CIDADES_E_BAIRROS :: "(pystr \<times> pystr list) list" where
  "CIDADES_E_BAIRROS =
     [(str ''S'' @ [227] @ str ''o Paulo'',
       [str ''Jardim Paulista'', str ''Pinheiros'', str ''Vila Mariana'', str ''Moema'',
        str ''Brooklin'', str ''Itaim Bibi'', str ''Morumbi'', str ''Vila Prudente'',
        str ''Santana'', str ''Brooklin Novo'']),
      (str ''Campinas'',
       [str ''Cidade Universit'' @ [225] @ str ''ria'', str ''Jardim Paulista'',
        str ''Bar'' @ [227] @ str ''o Geraldo'', str ''Parque Prado'', str ''Nova Campinas'',
        str ''Sousas'', str ''Cambu'' @ [237]]),
      (str ''Ribeir'' @ [227] @ str ''o Preto'',
       [str ''Centro'', str ''Jardim Universit'' @ [225] @ str ''rio'', str ''Jardim Catarina'',
        str ''Jardim Am'' @ [233] @ str ''rica'', str ''Vila Formosa'',
        str ''Jardim Petr'' @ [243] @ str ''polis''])]"

definition KEYWORDS :: "pystr list" where
  "KEYWORDS =
     [str ''farm'' @ [225] @ str ''cia'', str ''drogaria'', str ''drugstore'',
      str ''farm'' @ [225] @ str ''cia de manipula'' @ [231, 227] @ str ''o'']"

text \<open>Every caller uses the defaults \<open>retries=3\<close> and \<open>backoff_factor=0.5\<close>.\<close>

definition fetch :: "env \<Rightarrow> pystr \<Rightarrow> (pystr \<times> json) list \<Rightarrow> json" where
  "fetch env url params = payload (fetch_json (http_get env (url, params)) 3 (1 / 2))"

section \<open>Name normalisation\<close>

text \<open>
  After \<open>encode('ASCII', 'ignore')\<close> only code points below 128 are left, and on those
  \<open>\w\<close> is a letter, a digit or the underscore and \<open>\s\<close> is one of the ASCII white-space
  characters.
\<close>

definition ascii_ignore :: "pystr \<Rightarrow> pystr" where
  "ascii_ignore s = filter (\<lambda>c. c < 128) s"

definition word_char :: "nat \<Rightarrow> bool" where
  "word_char c \<longleftrightarrow>
     (48 \<le> c \<and> c \<le> 57) \<or> (65 \<le> c \<and> c \<le> 90) \<or> c = 95 \<or> (97 \<le> c \<and> c \<le> 122)"

definition space_char :: "nat \<Rightarrow> bool" where
  "space_char c \<longleftrightarrow> (9 \<le> c \<and> c \<le> 13) \<or> (28 \<le> c \<and> c \<le> 32)"

definition lower :: "nat \<Rightarrow> nat" where
  "lower c = (if 65 \<le> c \<and> c \<le> 90 then c + 32 else c)"

text \<open>The alternatives of \<open>\b(Ltda\.|Ltda|EIRELI|S\/A|SA|Limited|Ltd)\b\<close>, in order.\<close>

definition legal_suffixes :: "pystr list" where
  "legal_suffixes =
     [str ''Ltda.'', str ''Ltda'', str ''EIRELI'', str ''S/A'', str ''SA'', str ''Limited'',
      str ''Ltd'']"

text \<open>\<open>\b\<close> between the character before and the character after a position; the ends of
  the string count as non-word characters.\<close>

definition word_boundary :: "nat option \<Rightarrow> nat option \<Rightarrow> bool" where
  "word_boundary prev nxt \<longleftrightarrow>
     (case prev of None \<Rightarrow> False | Some c \<Rightarrow> word_char c) \<noteq>
     (case nxt of None \<Rightarrow> False | Some c \<Rightarrow> word_char c)"

definition next_char :: "pystr \<Rightarrow> nat option" where
  "next_char s = (case s of [] \<Rightarrow> None | c # cs \<Rightarrow> Some c)"

text \<open>An alternative matches the text ahead when the text begins with it, without regard
  to case, and a word boundary follows; the last character of the match is a word
  character exactly when that of the alternative is.\<close>

definition alternative_matches :: "pystr \<Rightarrow> pystr \<Rightarrow> bool" where
  "alternative_matches t s \<longleftrightarrow>
     length t \<le> length s \<and> map lower (take (length t) s) = map lower t \<and>
     word_boundary (Some (last t)) (next_char (drop (length t) s))"

text \<open>The first alternative that matches; the result is the length of the match.\<close>

fun match_alternatives :: "pystr list \<Rightarrow> pystr \<Rightarrow> nat option" where
  "match_alternatives [] s = None"
| "match_alternatives (t # ts) s =
     (if alternative_matches t s then Some (length t) else match_alternatives ts s)"

definition match_suffix :: "nat option \<Rightarrow> pystr \<Rightarrow> nat option" where
  "match_suffix prev s =
     (if word_boundary prev (next_char s) then match_alternatives legal_suffixes s else None)"

text \<open>\<open>re.sub\<close> with the empty replacement: scan from the left, delete each match and go on
  behind it; \<open>prev\<close> is the character of the subject just before the position.\<close>

function remove_suffixes :: "nat option \<Rightarrow> pystr \<Rightarrow> pystr" where
  "remove_suffixes prev [] = []"
| "remove_suffixes prev (c # cs) =
     (case match_suffix prev (c # cs) of
        None \<Rightarrow> c # remove_suffixes (Some c) cs
      | Some n \<Rightarrow> remove_suffixes (Some ((c # cs) ! (n - 1))) (drop (n - 1) cs))"
  by pat_completeness auto
termination
  by (relation "measure (\<lambda>(prev, s). length s)") auto

text \<open>\<open>re.sub(r'[^\w\s]', '', name)\<close> and \<open>re.sub(r'\s+', ' ', name)\<close>.\<close>

definition strip_punctuation :: "pystr \<Rightarrow> pystr" where
  "strip_punctuation s = filter (\<lambda>c. word_char c \<or> space_char c) s"

function collapse_spaces :: "pystr \<Rightarrow> pystr" where
  "collapse_spaces [] = []"
| "collapse_spaces (c # cs) =
     (if space_char c then 32 # collapse_spaces (dropWhile space_char cs)
      else c # collapse_spaces cs)"
  by pat_completeness auto
termination
  by (relation "measure length") (auto simp: length_dropWhile_le less_Suc_eq_le)

definition normalize_name :: "env \<Rightarrow> json \<Rightarrow> py_error + pystr" where
  "normalize_name env name =
     (if \<not> truthy name then Inr []
      else (case name of
              JStr s \<Rightarrow>
                Inr (strip (collapse_spaces (strip_punctuation
                       (remove_suffixes None (ascii_ignore (nfkd env s))))))
            | _ \<Rightarrow> Inl TypeError))"

section \<open>Search stage\<close>

text \<open>One keyword of \<open>search_pharmacies_by_bairro\<close>: the results it appends to
  \<open>all_results\<close>, with the one follow-up request when the answer carries a page token.\<close>

definition search_keyword :: "env \<Rightarrow> pystr \<Rightarrow> pystr \<Rightarrow> py_error + json list" where
  "search_keyword env bairro keyword =
     (let data = fetch env GOOGLE_PLACES_SEARCH_URL
                   [(str ''query'', JStr (keyword @ str '' em '' @ bairro)),
                    (str ''key'', JStr (GOOGLE_API_KEY env)),
                    (str ''type'', JStr (str ''pharmacy'')),
                    (str ''rankby'', JStr (str ''prominence''))]
      in if \<not> truthy data then Inr []
         else
           then_do (dict_get data (str ''status'') JNull) (\<lambda>status.
           then_do (dict_get data (str ''results'') (JList [])) (\<lambda>results.
           then_do (py_iter results) (\<lambda>found.
           then_do (py_in (str ''next_page_token'') data) (\<lambda>more.
             if \<not> more then Inr found
             else
               then_do (py_subscript data (str ''next_page_token'')) (\<lambda>next_page_token.
                 let data_next = fetch env GOOGLE_PLACES_SEARCH_URL
                                   [(str ''pagetoken'', next_page_token),
                                    (str ''key'', JStr (GOOGLE_API_KEY env))]
                 in if \<not> truthy data_next then Inr found
                    else
                      then_do (dict_get data_next (str ''status'') JNull) (\<lambda>status_next.
                        if status_next \<noteq> JStr (str ''OK'') then Inr found
                        else
                          then_do (dict_get data_next (str ''results'') (JList []))
                            (\<lambda>results_next.
                          then_do (py_iter results_next) (\<lambda>found_next.
                            Inr (found @ found_next))))))))))"

fun search_keywords :: "env \<Rightarrow> pystr \<Rightarrow> pystr list \<Rightarrow> json list \<Rightarrow> py_error + json list" where
  "search_keywords env bairro [] all_results = Inr all_results"
| "search_keywords env bairro (keyword # keywords) all_results =
     (case search_keyword env bairro keyword of
        Inl e \<Rightarrow> Inl e
      | Inr found \<Rightarrow> search_keywords env bairro keywords (all_results @ found))"

definition search_pharmacies_by_bairro :: "env \<Rightarrow> pystr \<Rightarrow> py_error + json list" where
  "search_pharmacies_by_bairro env bairro = search_keywords env bairro KEYWORDS []"

section \<open>Detail and enrichment stage\<close>

text \<open>What the details request for one identifier comes back with.\<close>

definition details_response :: "env \<Rightarrow> json \<Rightarrow> json" where
  "details_response env place_id =
     fetch env GOOGLE_PLACES_DETAILS_URL
       [(str ''place_id'', place_id),
        (str ''fields'', JStr (str
           ''name,formatted_address,rating,formatted_phone_number,types,geometry/location,user_ratings_total'')),
        (str ''key'', JStr (GOOGLE_API_KEY env))]"

definition get_company_details :: "env \<Rightarrow> json \<Rightarrow> py_error + json" where
  "get_company_details env place_id =
     (let data = details_response env place_id
      in then_do (py_in (str ''result'') data) (\<lambda>present.
           if \<not> present then Inr (JDict [])
           else
             then_do (dict_get data (str ''status'') JNull) (\<lambda>status.
             then_do (py_subscript data (str ''result'')) (\<lambda>result.
             then_do (dict_get result (str ''name'') (JStr (str ''N/A''))) (\<lambda>name.
               Inr result)))))"

text \<open>\<open>[item['link'] for item in items]\<close>.\<close>

fun item_links :: "json list \<Rightarrow> py_error + json list" where
  "item_links [] = Inr []"
| "item_links (item # items) =
     (case py_subscript item (str ''link'') of
        Inl e \<Rightarrow> Inl e
      | Inr link \<Rightarrow> (case item_links items of Inl e \<Rightarrow> Inl e | Inr links \<Rightarrow> Inr (link # links)))"

text \<open>An unset or empty \<open>CUSTOM_SEARCH_ENGINE_ID\<close> is false in \<open>if\<close>.\<close>

definition get_social_media_links :: "env \<Rightarrow> json \<Rightarrow> pystr \<Rightarrow> py_error + json list" where
  "get_social_media_links env company_name city =
     (case CUSTOM_SEARCH_ENGINE_ID env of
        None \<Rightarrow> Inr []
      | Some cx \<Rightarrow>
          if cx = [] then Inr []
          else
            then_do (normalize_name env company_name) (\<lambda>company_name_clean.
              let data = fetch env GOOGLE_CUSTOM_SEARCH_URL
                           [(str ''key'', JStr (GOOGLE_API_KEY env)),
                            (str ''cx'', JStr cx),
                            (str ''q'', JStr ([34] @ company_name_clean @ [34, 32] @ city @
                                              str '' site:facebook.com OR site:instagram.com'')),
                            (str ''num'', JInt 5)]
              in if \<not> truthy data then Inr []
                 else
                   then_do (py_in (str ''items'') data) (\<lambda>present.
                     if \<not> present then Inr []
                     else
                       then_do (dict_get data (str ''items'') (JList [])) (\<lambda>items.
                       then_do (py_iter items) item_links))))"

text \<open>The dict \<open>address_components\<close> is built key by key; the first \<open>IndexError\<close> leaves
  it as it is.\<close>

definition parse_address :: "json \<Rightarrow> py_error + (pystr \<times> pystr) list" where
  "parse_address formatted_address =
     (case formatted_address of
        JStr s \<Rightarrow>
          Inr (let parts = split_on 44 s in
               case index parts 0 of
                 None \<Rightarrow> []
               | Some p0 \<Rightarrow>
                   (let a1 = [(str ''route'', strip p0)] in
                    case index parts 1 of
                      None \<Rightarrow> a1
                    | Some p1 \<Rightarrow>
                        (let a2 = a1 @ [(str ''neighborhood'', strip p1)] in
                         case index parts 2 of
                           None \<Rightarrow> a2
                         | Some p2 \<Rightarrow> a2 @ [(str ''locality'', strip p2)])))
      | _ \<Rightarrow> Inl AttributeError)"

definition Pequena :: pystr where
  "Pequena = str ''Pequena''"

definition Grande :: pystr where
  "Grande = str ''Grande''"

definition Media :: pystr where
  "Media = str ''M'' @ [233] @ str ''dia''"

text \<open>The number a value is in a comparison with \<open>0\<close>, \<open>20\<close> or \<open>100\<close>; comparing anything
  else with \<open>>=\<close> raises.\<close>

fun number :: "json \<Rightarrow> rat option" where
  "number (JBool b) = Some (if b then 1 else 0)"
| "number (JInt n) = Some (of_int n)"
| "number (JFloat q) = Some q"
| "number v = None"

definition classify_company_size :: "json \<Rightarrow> py_error + pystr" where
  "classify_company_size user_ratings_total =
     (if user_ratings_total = JNull then Inr Pequena
      else (case number user_ratings_total of
              None \<Rightarrow> Inl TypeError
            | Some n \<Rightarrow>
                Inr (if n = 0 then Pequena
                     else if n \<ge> 100 then Grande
                     else if n \<ge> 20 then Media
                     else Pequena)))"

record pharmacy =
  PlaceID :: json
  Name :: json
  Address :: json
  Neighborhood :: pystr
  Street :: pystr
  City :: pystr
  Rating :: json
  UserRatingsTotal :: json
  Phone :: json
  Types :: json
  Category :: pystr
  Latitude :: json
  Longitude :: json
  SocialLinks :: "json list"

text \<open>\<open>', '.join(types)\<close>: every element has to be a string.\<close>

fun join_strs :: "pystr \<Rightarrow> json list \<Rightarrow> py_error + pystr" where
  "join_strs sep [] = Inr []"
| "join_strs sep [JStr s] = Inr s"
| "join_strs sep (JStr s # v # vs) =
     (case join_strs sep (v # vs) of Inl e \<Rightarrow> Inl e | Inr r \<Rightarrow> Inr (s @ sep @ r))"
| "join_strs sep (v # vs) = Inl TypeError"

definition types_column :: "json \<Rightarrow> py_error + json" where
  "types_column types =
     (case types of
        JList xs \<Rightarrow> then_do (join_strs (str '', '') xs) (\<lambda>s. Inr (JStr s))
      | _ \<Rightarrow> Inr types)"

definition address_field :: "(pystr \<times> pystr) list \<Rightarrow> pystr \<Rightarrow> pystr" where
  "address_field address_components k =
     (case map_of address_components k of None \<Rightarrow> str ''N/A'' | Some v \<Rightarrow> v)"

definition location_field :: "json \<Rightarrow> pystr \<Rightarrow> py_error + json" where
  "location_field details k =
     then_do (dict_get details (str ''geometry'') (JDict [])) (\<lambda>geometry.
     then_do (dict_get geometry (str ''location'') (JDict [])) (\<lambda>location.
       dict_get location k JNull))"

definition process_pharmacy :: "env \<Rightarrow> json \<Rightarrow> pystr \<Rightarrow> py_error + pharmacy option" where
  "process_pharmacy env place_id city =
     then_do (get_company_details env place_id) (\<lambda>details.
       if \<not> truthy details then Inr None
       else
         then_do (dict_get details (str ''name'') (JStr (str ''N/A''))) (\<lambda>company_name.
         then_do (get_social_media_links env company_name city) (\<lambda>social_links.
         then_do (dict_get details (str ''formatted_address'') (JStr [])) (\<lambda>formatted_address.
         then_do (parse_address formatted_address) (\<lambda>address_components.
         then_do (dict_get details (str ''types'') (JList [])) (\<lambda>types.
         then_do (dict_get details (str ''rating'') (JInt 0)) (\<lambda>rating.
         then_do (dict_get details (str ''user_ratings_total'') (JInt 0)) (\<lambda>ratings_total.
         then_do (dict_get details (str ''formatted_phone_number'') (JStr (str ''N/A'')))
           (\<lambda>phone.
         then_do (types_column types) (\<lambda>types_joined.
         then_do (location_field details (str ''lat'')) (\<lambda>lat.
         then_do (location_field details (str ''lng'')) (\<lambda>lng.
           Inr (Some \<lparr>PlaceID = place_id, Name = company_name, Address = formatted_address,
                       Neighborhood = address_field address_components (str ''neighborhood''),
                       Street = address_field address_components (str ''route''),
                       City = address_field address_components (str ''locality''),
                       Rating = rating, UserRatingsTotal = ratings_total, Phone = phone,
                       Types = types_joined,
                       Category = str ''Farm'' @ [225] @ str ''cia'',
                       Latitude = lat, Longitude = lng,
                       SocialLinks = social_links\<rparr>)))))))))))))"

section \<open>Deduplication, incremental state and the run\<close>

text \<open>
  \<open>place_ids.add(pid)\<close> on the set built for one city, kept as the list of its elements in
  the order they came in; an element equal to one already there is not added.
\<close>

definition set_add :: "json \<Rightarrow> json list \<Rightarrow> json list" where
  "set_add v xs = (if hash_key v \<in> hash_key ` set xs then xs else xs @ [v])"

fun new_place_ids :: "key set \<Rightarrow> json list \<Rightarrow> json list \<Rightarrow> py_error + json list" where
  "new_place_ids processed [] place_ids = Inr place_ids"
| "new_place_ids processed (place # places) place_ids =
     (case py_subscript place (str ''place_id'') of
        Inl e \<Rightarrow> Inl e
      | Inr pid \<Rightarrow>
          (case hash_key pid of
             Inl e \<Rightarrow> Inl e
           | Inr k \<Rightarrow>
               if k \<notin> processed then new_place_ids processed places (set_add pid place_ids)
               else new_place_ids processed places place_ids))"

fun search_bairros :: "env \<Rightarrow> pystr list \<Rightarrow> json list \<Rightarrow> py_error + json list" where
  "search_bairros env [] all_results_city = Inr all_results_city"
| "search_bairros env (bairro # bairros) all_results_city =
     (case search_pharmacies_by_bairro env bairro of
        Inl e \<Rightarrow> Inl e
      | Inr results \<Rightarrow> search_bairros env bairros (all_results_city @ results))"

text \<open>\<open>asyncio.gather\<close>: the results in the order of the tasks, or the exception of a task
  that raised.\<close>

fun gather :: "('e + 'a) list \<Rightarrow> 'e + 'a list" where
  "gather [] = Inr []"
| "gather (Inl e # rs) = Inl e"
| "gather (Inr v # rs) = (case gather rs of Inl e \<Rightarrow> Inl e | Inr vs \<Rightarrow> Inr (v # vs))"

text \<open>
  The state of one run of \<open>collect_data\<close>.  Besides the two variables of the source it
  records what the run did to the outside: the identifiers for which an enrichment task
  was started, the contents written to the state file, and the exception that ended the
  run, if any.
\<close>

record run =
  all_companies :: "(pystr \<times> pharmacy list) list"
  processed_place_ids :: "key set"
  detail_tasks :: "json list"
  saved :: "key set list"
  raised :: "py_error option"

text \<open>\<open>all_companies[city].append(company)\<close>, creating the list at the first company.\<close>

fun append_company :: "pystr \<Rightarrow> pharmacy \<Rightarrow> (pystr \<times> pharmacy list) list \<Rightarrow> (pystr \<times> pharmacy list) list" where
  "append_company city company [] = [(city, [company])]"
| "append_company city company ((c, companies) # rest) =
     (if c = city then (c, companies @ [company]) # rest
      else (c, companies) # append_company city company rest)"

fun add_companies :: "pystr \<Rightarrow> pharmacy option list \<Rightarrow> run \<Rightarrow> run" where
  "add_companies city [] r = r"
| "add_companies city (None # company_details) r = add_companies city company_details r"
| "add_companies city (Some company # company_details) r =
     (let r1 = r\<lparr>all_companies := append_company city company (all_companies r)\<rparr> in
      case hash_key (PlaceID company) of
        Inl e \<Rightarrow> r1\<lparr>raised := Some e\<rparr>
      | Inr k \<Rightarrow>
          add_companies city company_details
            (r1\<lparr>processed_place_ids := insert k (processed_place_ids r1)\<rparr>))"

definition save_processed_place_ids :: "run \<Rightarrow> run" where
  "save_processed_place_ids r = r\<lparr>saved := saved r @ [processed_place_ids r]\<rparr>"

text \<open>One iteration of the loop over the cities.\<close>

definition collect_city :: "env \<Rightarrow> run \<Rightarrow> pystr \<times> pystr list \<Rightarrow> run" where
  "collect_city env r cb =
     (case cb of (city, bairros) \<Rightarrow>
        (case search_bairros env bairros [] of
           Inl e \<Rightarrow> r\<lparr>raised := Some e\<rparr>
         | Inr all_results_city \<Rightarrow>
             (case new_place_ids (processed_place_ids r) all_results_city [] of
                Inl e \<Rightarrow> r\<lparr>raised := Some e\<rparr>
              | Inr place_ids \<Rightarrow>
                  if place_ids = [] then r
                  else
                    (let batch = set_iter env place_ids;
                         r1 = r\<lparr>detail_tasks := detail_tasks r @ batch\<rparr>
                     in case gather (map (\<lambda>place_id. process_pharmacy env place_id city) batch) of
                          Inl e \<Rightarrow> r1\<lparr>raised := Some e\<rparr>
                        | Inr company_details \<Rightarrow>
                            (let r2 = add_companies city company_details r1
                             in if raised r2 = None then save_processed_place_ids r2
                                else r2)))))"

fun collect_cities :: "env \<Rightarrow> run \<Rightarrow> (pystr \<times> pystr list) list \<Rightarrow> run" where
  "collect_cities env r [] = r"
| "collect_cities env r (cb # cbs) =
     (let r1 = collect_city env r cb
      in if raised r1 = None then collect_cities env r1 cbs else r1)"

text \<open>The state file: absent, or the set of identifiers last written to it.\<close>

definition load_processed_place_ids :: "key set option \<Rightarrow> key set" where
  "load_processed_place_ids file = (case file of None \<Rightarrow> {} | Some ids \<Rightarrow> ids)"

definition start :: "key set option \<Rightarrow> run" where
  "start file =
     \<lparr>all_companies = [], processed_place_ids = load_processed_place_ids file,
      detail_tasks = [], saved = [], raised = None\<rparr>"

definition collect_over :: "env \<Rightarrow> (pystr \<times> pystr list) list \<Rightarrow> key set option \<Rightarrow> run" where
  "collect_over env cities file = collect_cities env (start file) cities"

definition collect_data :: "env \<Rightarrow> key set option \<Rightarrow> run" where
  "collect_data env file = collect_over env CIDADES_E_BAIRROS file"

definition file_after :: "key set option \<Rightarrow> run \<Rightarrow> key set option" where
  "file_after file r = (if saved r = [] then file else Some (last (saved r)))"

section \<open>Persistence sink\<close>

text \<open>
  The table operations of \<open>main\<close> on the records of one city.  \<open>drop_duplicates\<close> keeps the
  first row of each (Name, Address) pair and needs both values hashable; \<open>to_numeric\<close>
  with \<open>errors='coerce'\<close> turns a cell into a number or into NaN, here \<open>None\<close>; \<open>dropna\<close>
  drops the rows with a NaN in either column.
\<close>

fun drop_duplicates :: "(key \<times> key) list \<Rightarrow> pharmacy list \<Rightarrow> py_error + pharmacy list" where
  "drop_duplicates seen [] = Inr []"
| "drop_duplicates seen (p # ps) =
     (case hash_key (Name p) of
        Inl e \<Rightarrow> Inl e
      | Inr n \<Rightarrow>
          (case hash_key (Address p) of
             Inl e \<Rightarrow> Inl e
           | Inr a \<Rightarrow>
               if (n, a) \<in> set seen then drop_duplicates seen ps
               else (case drop_duplicates ((n, a) # seen) ps of
                       Inl e \<Rightarrow> Inl e
                     | Inr kept \<Rightarrow> Inr (p # kept))))"

definition to_numeric :: "env \<Rightarrow> json \<Rightarrow> rat option" where
  "to_numeric env v =
     (case v of
        JNull \<Rightarrow> None
      | JBool b \<Rightarrow> Some (if b then 1 else 0)
      | JInt n \<Rightarrow> Some (of_int n)
      | JFloat q \<Rightarrow> Some q
      | JStr s \<Rightarrow> parse_number env s
      | JList xs \<Rightarrow> None
      | JDict kvs \<Rightarrow> None)"

record row =
  source :: pharmacy
  CompanySize :: pystr
  latitude :: "rat option"
  longitude :: "rat option"

fun with_company_size :: "pharmacy list \<Rightarrow> py_error + (pharmacy \<times> pystr) list" where
  "with_company_size [] = Inr []"
| "with_company_size (p # ps) =
     (case classify_company_size (UserRatingsTotal p) of
        Inl e \<Rightarrow> Inl e
      | Inr company_size \<Rightarrow>
          (case with_company_size ps of
             Inl e \<Rightarrow> Inl e
           | Inr sized \<Rightarrow> Inr ((p, company_size) # sized)))"

definition coerce_coordinates :: "env \<Rightarrow> pharmacy \<times> pystr \<Rightarrow> row" where
  "coerce_coordinates env ps =
     \<lparr>source = fst ps, CompanySize = snd ps,
      latitude = to_numeric env (Latitude (fst ps)),
      longitude = to_numeric env (Longitude (fst ps))\<rparr>"

definition dropna :: "row list \<Rightarrow> row list" where
  "dropna df = filter (\<lambda>r. latitude r \<noteq> None \<and> longitude r \<noteq> None) df"

text \<open>The rows written to the file of one city.\<close>

definition city_rows :: "env \<Rightarrow> pharmacy list \<Rightarrow> py_error + row list" where
  "city_rows env farmacias =
     then_do (drop_duplicates [] farmacias) (\<lambda>df.
     then_do (with_company_size df) (\<lambda>sized.
       Inr (dropna (map (coerce_coordinates env) sized))))"

section \<open>Notions used in the statements\<close>

text \<open>The records \<open>all_companies\<close> holds for a city.\<close>

definition companies_of :: "run \<Rightarrow> pystr \<Rightarrow> pharmacy list" where
  "companies_of r city = (case map_of (all_companies r) city of None \<Rightarrow> [] | Some cs \<Rightarrow> cs)"

text \<open>Iterating a set visits each of its elements once, in some order.\<close>

definition iterates_each_once :: "env \<Rightarrow> bool" where
  "iterates_each_once env \<longleftrightarrow>
     (\<forall>xs. set (set_iter env xs) = set xs \<and> length (set_iter env xs) = length xs)"

definition raises :: "'e + 'a \<Rightarrow> bool" where
  "raises r = (case r of Inl e \<Rightarrow> True | Inr v \<Rightarrow> False)"

text \<open>The identifier of a value as a set element, and the identifier a candidate
  carries, when there is one.\<close>

definition key_of :: "json \<Rightarrow> key option" where
  "key_of v = (case hash_key v of Inl e \<Rightarrow> None | Inr k \<Rightarrow> Some k)"

definition entity_id :: "json \<Rightarrow> key option" where
  "entity_id place =
     (case py_subscript place (str ''place_id'') of Inl e \<Rightarrow> None | Inr pid \<Rightarrow> key_of pid)"

definition candidate_keys :: "json list \<Rightarrow> key set" where
  "candidate_keys places = set (List.map_filter entity_id places)"

text \<open>A run that started from the identifiers \<open>P\<close>: they are all still there, and the
  snapshots written so far lie between \<open>P\<close> and the current set, each within the next.\<close>

definition grown_from :: "key set \<Rightarrow> run \<Rightarrow> bool" where
  "grown_from P r \<longleftrightarrow>
     P \<subseteq> processed_place_ids r \<and>
     (\<forall>S\<in>set (saved r). P \<subseteq> S \<and> S \<subseteq> processed_place_ids r) \<and>
     sorted_wrt (\<subseteq>) (saved r)"

text \<open>
  What a run that loaded \<open>P\<close> from \<open>file\<close> keeps true: \<open>P\<close> is still in the set; every
  identifier an enrichment task was started for is hashable and was not in \<open>P\<close>; every
  record collected belongs to such a task and has its identifier in the set; and the set
  in memory is what the state file now holds.
\<close>

definition tracked :: "key set \<Rightarrow> key set option \<Rightarrow> run \<Rightarrow> bool" where
  "tracked P file r \<longleftrightarrow>
     P \<subseteq> processed_place_ids r \<and>
     (\<forall>pid\<in>set (detail_tasks r). \<exists>k. key_of pid = Some k \<and> k \<notin> P) \<and>
     (\<forall>city. \<forall>c\<in>set (companies_of r city).
        PlaceID c \<in> set (detail_tasks r) \<and>
        (\<exists>k. key_of (PlaceID c) = Some k \<and> k \<in> processed_place_ids r)) \<and>
     processed_place_ids r = load_processed_place_ids (file_after file r)"

text \<open>
  The shapes the upstream answers have according to the external interfaces: a details
  answer is an object whose \<open>result\<close>, when present, is an object with a string name, a
  string address, a list of strings as types and an object as geometry whose location
  is an object; a link-search answer is an object whose \<open>items\<close>, when present, are
  objects with a \<open>link\<close>.  A failed fetch gives the empty object, which has both shapes.
\<close>

fun is_str :: "json \<Rightarrow> bool" where
  "is_str (JStr s) = True"
| "is_str v = False"

fun is_dict :: "json \<Rightarrow> bool" where
  "is_dict (JDict kvs) = True"
| "is_dict v = False"

definition absent_or :: "(json \<Rightarrow> bool) \<Rightarrow> (pystr \<times> json) list \<Rightarrow> pystr \<Rightarrow> bool" where
  "absent_or P kvs k = (case map_of kvs k of None \<Rightarrow> True | Some v \<Rightarrow> P v)"

definition well_typed_result :: "json \<Rightarrow> bool" where
  "well_typed_result result =
     (case result of
        JDict kvs \<Rightarrow>
          absent_or is_str kvs (str ''name'') \<and>
          absent_or is_str kvs (str ''formatted_address'') \<and>
          absent_or (\<lambda>v. case v of JList xs \<Rightarrow> list_all is_str xs | _ \<Rightarrow> False) kvs (str ''types'') \<and>
          absent_or (\<lambda>v. case v of JDict g \<Rightarrow> absent_or is_dict g (str ''location'') | _ \<Rightarrow> False)
            kvs (str ''geometry'')
      | _ \<Rightarrow> False)"

definition well_typed_details :: "json \<Rightarrow> bool" where
  "well_typed_details data =
     (case data of JDict kvs \<Rightarrow> absent_or well_typed_result kvs (str ''result'') | _ \<Rightarrow> False)"

definition well_typed_links :: "json \<Rightarrow> bool" where
  "well_typed_links data =
     (case data of
        JDict kvs \<Rightarrow>
          absent_or (\<lambda>v. case v of
                           JList items \<Rightarrow>
                             list_all (\<lambda>item. case item of
                                               JDict i \<Rightarrow> map_of i (str ''link'') \<noteq> None
                                             | _ \<Rightarrow> False) items
                         | _ \<Rightarrow> False) kvs (str ''items'')
      | _ \<Rightarrow> False)"

definition upstream_well_typed :: "env \<Rightarrow> bool" where
  "upstream_well_typed env \<longleftrightarrow>
     (\<forall>params. well_typed_details (fetch env GOOGLE_PLACES_DETAILS_URL params)) \<and>
     (\<forall>params. well_typed_links (fetch env GOOGLE_CUSTOM_SEARCH_URL params))"

text \<open>A word of letters, digits and underscores; a word that is one of the legal
  suffixes, in any case; a text in which no two spaces are adjacent.\<close>

definition plain_word :: "pystr \<Rightarrow> bool" where
  "plain_word w \<longleftrightarrow> w \<noteq> [] \<and> list_all word_char w"

definition is_legal_suffix :: "pystr \<Rightarrow> bool" where
  "is_legal_suffix w \<longleftrightarrow> map lower w \<in> set (map (map lower) legal_suffixes)"

fun single_spaced :: "pystr \<Rightarrow> bool" where
  "single_spaced [] = True"
| "single_spaced [c] = True"
| "single_spaced (a # b # cs) = (\<not> (a = 32 \<and> b = 32) \<and> single_spaced (b # cs))"

text \<open>A position that has no word character before it, and a text that is empty or
  begins with a space: what stands before and after a word of a name.\<close>

definition nonword :: "nat option \<Rightarrow> bool" where
  "nonword prev = (case prev of None \<Rightarrow> True | Some c \<Rightarrow> \<not> word_char c)"

definition gap :: "pystr \<Rightarrow> bool" where
  "gap r \<longleftrightarrow> r = [] \<or> hd r = 32"

text \<open>\<open>sep.join(parts)\<close>, the inverse of \<open>split\<close>.\<close>

fun join_on :: "nat \<Rightarrow> pystr list \<Rightarrow> pystr" where
  "join_on sep [] = []"
| "join_on sep [p] = p"
| "join_on sep (p # q # ps) = p @ sep # join_on sep (q # ps)"

section \<open>A small upstream world\<close>

text \<open>
  Every search answers with the candidates \<open>p1\<close>, \<open>p2\<close>, \<open>p1\<close>, \<open>p3\<close>; the details of
  \<open>p1\<close> and \<open>p3\<close> are found, those of any other identifier are not.
\<close>

definition example_places :: "json list" where
  "example_places =
     [JDict [(str ''place_id'', JStr (str ''p1''))],
      JDict [(str ''place_id'', JStr (str ''p2''))],
      JDict [(str ''place_id'', JStr (str ''p1''))],
      JDict [(str ''place_id'', JStr (str ''p3''))]]"

definition example_search :: json where
  "example_search =
     JDict [(str ''status'', JStr (str ''OK'')), (str ''results'', JList example_places)]"

definition example_details :: "json \<Rightarrow> json" where
  "example_details place_id =
     (if place_id = JStr (str ''p1'') then
        JDict [(str ''status'', JStr (str ''OK'')),
               (str ''result'',
                JDict [(str ''name'', JStr (str ''Drogaria Sol'')),
                       (str ''formatted_address'', JStr (str ''Rua A 10 , Centro'')),
                       (str ''user_ratings_total'', JInt 25),
                       (str ''geometry'',
                        JDict [(str ''location'',
                                JDict [(str ''lat'', JFloat (- 47 / 2)),
                                       (str ''lng'', JFloat (- 233 / 5))])])])]
      else if place_id = JStr (str ''p3'') then
        JDict [(str ''status'', JStr (str ''OK'')),
               (str ''result'',
                JDict [(str ''name'', JStr (str ''Farma'')),
                       (str ''formatted_address'', JStr (str ''N/A''))])]
      else JDict [(str ''status'', JStr (str ''NOT_FOUND''))])"

definition example_http_get :: "request \<Rightarrow> nat \<Rightarrow> outcome" where
  "example_http_get req attempt =
     (case map_of (snd req) (str ''place_id'') of
        None \<Rightarrow> Response example_search
      | Some place_id \<Rightarrow> Response (example_details place_id))"

text \<open>The canonical decompositions of the accented letters of Portuguese; every other
  code point is left as it is, as NFKD leaves every ASCII character.\<close>

definition example_decompose :: "nat \<Rightarrow> pystr" where
  "example_decompose c =
     (if c = 192 then [65, 768] else if c = 193 then [65, 769] else if c = 194 then [65, 770]
      else if c = 195 then [65, 771] else if c = 199 then [67, 807] else if c = 201 then [69, 769]
      else if c = 202 then [69, 770] else if c = 205 then [73, 769] else if c = 211 then [79, 769]
      else if c = 212 then [79, 770] else if c = 213 then [79, 771] else if c = 218 then [85, 769]
      else if c = 224 then [97, 768] else if c = 225 then [97, 769] else if c = 226 then [97, 770]
      else if c = 227 then [97, 771] else if c = 231 then [99, 807] else if c = 233 then [101, 769]
      else if c = 234 then [101, 770] else if c = 237 then [105, 769] else if c = 243 then [111, 769]
      else if c = 244 then [111, 770] else if c = 245 then [111, 771] else if c = 250 then [117, 769]
      else [c])"

definition example_nfkd :: "pystr \<Rightarrow> pystr" where
  "example_nfkd s = concat (map example_decompose s)"

definition example_env :: env where
  "example_env =
     \<lparr>GOOGLE_API_KEY = str ''key'', CUSTOM_SEARCH_ENGINE_ID = None,
      http_get = example_http_get, nfkd = example_nfkd, parse_number = (\<lambda>s. None),
      set_iter = rev\<rparr>"

text \<open>The name of the example in the specification, with its three accented letters, and
  its decomposition.\<close>

definition farmacia_sao_joao :: pystr where
  "farmacia_sao_joao =
     str ''Farm'' @ [225] @ str ''cia S'' @ [227] @ str ''o Jo'' @ [227] @ str ''o Ltda.''"

definition farmacia_sao_joao_nfkd :: pystr where
  "farmacia_sao_joao_nfkd =
     str ''Farma'' @ [769] @ str ''cia Sa'' @ [771] @ str ''o Joa'' @ [771] @ str ''o Ltda.''"

definition example_cities :: "(pystr \<times> pystr list) list" where
  "example_cities = [(str ''Campinas'', [str ''Sousas'']), (str ''Santos'', [str ''Gonzaga''])]"

definition example_ids :: "key set" where
  "example_ids = {KStr (str ''p1''), KStr (str ''p3'')}"

definition example_record_p1 :: pharmacy where
  "example_record_p1 =
     \<lparr>PlaceID = JStr (str ''p1''), Name = JStr (str ''Drogaria Sol''),
      Address = JStr (str ''Rua A 10 , Centro''),
      Neighborhood = str ''Centro'', Street = str ''Rua A 10'', City = str ''N/A'',
      Rating = JInt 0, UserRatingsTotal = JInt 25, Phone = JStr (str ''N/A''),
      Types = JStr [], Category = str ''Farm'' @ [225] @ str ''cia'',
      Latitude = JFloat (- 47 / 2), Longitude = JFloat (- 233 / 5),
      SocialLinks = []\<rparr>"

definition example_record_p3 :: pharmacy where
  "example_record_p3 =
     \<lparr>PlaceID = JStr (str ''p3''), Name = JStr (str ''Farma''),
      Address = JStr (str ''N/A''),
      Neighborhood = str ''N/A'', Street = str ''N/A'', City = str ''N/A'',
      Rating = JInt 0, UserRatingsTotal = JInt 0, Phone = JStr (str ''N/A''),
      Types = JStr [], Category = str ''Farm'' @ [225] @ str ''cia'',
      Latitude = JNull, Longitude = JNull,
      SocialLinks = []\<rparr>"

text \<open>The state after the first city, after the whole run, and after a second run that
  starts from the file the first one left.\<close>

definition example_first :: run where
  "example_first =
     \<lparr>all_companies = [(str ''Campinas'', [example_record_p3, example_record_p1])],
      processed_place_ids = example_ids,
      detail_tasks = [JStr (str ''p3''), JStr (str ''p2''), JStr (str ''p1'')],
      saved = [example_ids], raised = None\<rparr>"

definition example_second :: run where
  "example_second =
     \<lparr>all_companies = [(str ''Campinas'', [example_record_p3, example_record_p1])],
      processed_place_ids = example_ids,
      detail_tasks = [JStr (str ''p3''), JStr (str ''p2''), JStr (str ''p1''), JStr (str ''p2'')],
      saved = [example_ids, example_ids], raised = None\<rparr>"

definition example_rerun :: run where
  "example_rerun =
     \<lparr>all_companies = [], processed_place_ids = example_ids,
      detail_tasks = [JStr (str ''p2''), JStr (str ''p2'')],
      saved = [example_ids, example_ids], raised = None\<rparr>"

text \<open>The one row written for the records of the first city.\<close>

definition example_row :: row where
  "example_row =
     \<lparr>source = example_record_p1, CompanySize = Media,
      latitude = Some (- 47 / 2), longitude = Some (- 233 / 5)\<rparr>"

section \<open>Properties of the fetcher\<close>

declare fetch_attempts.simps [simp del]

lemma backoffs_Suc: "a \<le> k \<Longrightarrow> backoffs b a (Suc k) = backoffs b a k @ [b * 2 ^ k]"
  by (simp add: backoffs_def)

lemma backoffs_same: "backoffs b a a = []"
  by (simp add: backoffs_def)

lemma fetch_attempts_retry_step:
  assumes "n < retries" and "retryable (get n)"
  shows "fetch_attempts get retries b n zs = fetch_attempts get retries b (Suc n) (zs @ [b * 2 ^ n])"
  using assms
  by (subst fetch_attempts.simps) (simp add: retryable_def split: outcome.splits)

lemma fetch_attempts_skip:
  assumes "a \<le> k" and "k \<le> retries" and "\<forall>i. a \<le> i \<and> i < k \<longrightarrow> retryable (get i)"
  shows "fetch_attempts get retries b a zs = fetch_attempts get retries b k (zs @ backoffs b a k)"
  using assms
proof (induction k rule: dec_induct)
  case base
  then show ?case by (simp add: backoffs_same)
next
  case (step n)
  have "fetch_attempts get retries b a zs = fetch_attempts get retries b n (zs @ backoffs b a n)"
    using step by simp
  also have "\<dots> = fetch_attempts get retries b (Suc n) ((zs @ backoffs b a n) @ [b * 2 ^ n])"
    using step by (intro fetch_attempts_retry_step) auto
  finally show ?case using step by (simp add: backoffs_Suc)
qed

lemma fetch_attempts_response:
  "k < retries \<Longrightarrow> get k = Response data \<Longrightarrow>
   fetch_attempts get retries b k zs = \<lparr>payload = data, slept = zs, attempts = Suc k\<rparr>"
  by (subst fetch_attempts.simps) simp

lemma fetch_attempts_abort:
  "k < retries \<Longrightarrow> get k = ClientResponseError status \<Longrightarrow> status \<notin> set retry_statuses \<Longrightarrow>
   fetch_attempts get retries b k zs = \<lparr>payload = JDict [], slept = zs, attempts = Suc k\<rparr>"
  by (subst fetch_attempts.simps) simp

lemma fetch_attempts_exhausted:
  "fetch_attempts get retries b retries zs = \<lparr>payload = JDict [], slept = zs, attempts = retries\<rparr>"
  by (subst fetch_attempts.simps) simp

lemma fetch_attempts_no_success:
  "\<forall>i. a \<le> i \<and> i < retries \<longrightarrow> \<not> succeeded (get i) \<Longrightarrow>
   payload (fetch_attempts get retries b a zs) = JDict []"
proof (induction get retries b a zs rule: fetch_attempts.induct)
  case (1 get retries b attempt zs)
  show ?case
  proof (cases "attempt < retries")
    case False
    then show ?thesis by (subst fetch_attempts.simps) simp
  next
    case True
    have ns: "\<not> succeeded (get attempt)" using 1(4) True by simp
    have rest: "\<forall>i. Suc attempt \<le> i \<and> i < retries \<longrightarrow> \<not> succeeded (get i)"
      using 1(4) by simp
    show ?thesis
    proof (cases "get attempt")
      case (Response d)
      with ns show ?thesis by (simp add: succeeded_def)
    next
      case (ClientResponseError st)
      show ?thesis
        using True ClientResponseError 1(1)[OF True ClientResponseError _ rest]
        by (subst fetch_attempts.simps) simp
    next
      case TimeoutError
      show ?thesis
        using True TimeoutError 1(2)[OF True TimeoutError rest]
        by (subst fetch_attempts.simps) simp
    next
      case OtherException
      show ?thesis
        using True OtherException 1(3)[OF True OtherException rest]
        by (subst fetch_attempts.simps) simp
    qed
  qed
qed

text \<open>
  Claim C1.  When the first \<open>k\<close> attempts all fail with a retryable condition (status 429,
  500, 502, 503 or 504, a timeout, or any other exception) and attempt \<open>k\<close>, below the
  attempt count, succeeds, \<open>fetch_json\<close> returns the payload of that attempt, after having
  slept \<open>backoff_factor * 2 ^ i\<close> seconds after each failed attempt \<open>i\<close>.
\<close>

theorem fetch_json_returns_first_success:
  assumes "k < retries" and "\<forall>i<k. retryable (get i)" and "get k = Response data"
  shows "fetch_json get retries backoff_factor =
           \<lparr>payload = data, slept = map (\<lambda>i. backoff_factor * 2 ^ i) [0..<k], attempts = Suc k\<rparr>"
proof -
  have "fetch_json get retries backoff_factor =
          fetch_attempts get retries backoff_factor k ([] @ backoffs backoff_factor 0 k)"
    unfolding fetch_json_def using assms by (intro fetch_attempts_skip) auto
  then show ?thesis
    using assms by (simp add: fetch_attempts_response backoffs_def)
qed

theorem fetch_json_returns_first_success_witness:
  "fetch_json (\<lambda>i. if i = 0 then TimeoutError else if i = 1 then ClientResponseError 503
                     else Response (JDict [(str ''status'', JStr (str ''OK''))])) 3 (1 / 2) =
     \<lparr>payload = JDict [(str ''status'', JStr (str ''OK''))], slept = [1 / 2, 1], attempts = 3\<rparr>"
  using fetch_json_returns_first_success [of 2 3
      "\<lambda>i. if i = 0 then TimeoutError else if i = 1 then ClientResponseError 503
           else Response (JDict [(str ''status'', JStr (str ''OK''))])"
      "JDict [(str ''status'', JStr (str ''OK''))]" "1 / 2"]
  by (simp add: retryable_def retry_statuses_def less_Suc_eq numeral_2_eq_2 upt_rec)



text \<open>
  Claim C6.  Size classification is defined on every review count: absent or \<open>0\<close> is
  \<open>Pequena\<close>, at least \<open>100\<close> is \<open>Grande\<close>, from \<open>20\<close> up to \<open>100\<close> is \<open>Media\<close>,
  anything else is \<open>Pequena\<close>; the three labels are different strings.
\<close>

theorem classify_company_size_total:
  "classify_company_size JNull = Inr Pequena \<and>
   classify_company_size (JInt n) =
     Inr (if n \<ge> 100 then Grande else if n \<ge> 20 then Media else Pequena) \<and>
   classify_company_size (JFloat q) =
     Inr (if q \<ge> 100 then Grande else if q \<ge> 20 then Media else Pequena) \<and>
   classify_company_size (JInt 0) = Inr Pequena \<and>
   classify_company_size (JInt 19) = Inr Pequena \<and>
   classify_company_size (JInt 20) = Inr Media \<and>
   classify_company_size (JInt 99) = Inr Media \<and>
   classify_company_size (JInt 100) = Inr Grande \<and>
   classify_company_size (JInt 1000) = Inr Grande \<and>
   Pequena \<noteq> Media \<and> Media \<noteq> Grande \<and> Pequena \<noteq> Grande"
  by (simp add: classify_company_size_def Pequena_def Media_def Grande_def str_def)

theorem classify_company_size_total_witness:
  "classify_company_size (JInt 57) = Inr Media \<and> classify_company_size (JFloat (41 / 2)) = Inr Media \<and>
   classify_company_size (JInt (- 3)) = Inr Pequena"
  using classify_company_size_total [of 57 "41 / 2"] classify_company_size_total [of "- 3" 0]
  by simp

section \<open>Properties of address parsing\<close>

lemma then_do_Inr: "then_do r f = Inr v \<longleftrightarrow> (\<exists>x. r = Inr x \<and> f x = Inr v)"
  by (cases r) (simp_all add: then_do_def)

lemma then_do_Inl: "then_do r f = Inl e \<longleftrightarrow> r = Inl e \<or> (\<exists>x. r = Inr x \<and> f x = Inl e)"
  by (cases r) (simp_all add: then_do_def)

lemma split_on_nonempty: "split_on sep s \<noteq> []"
  by (induction s) (auto split: list.splits)

lemma parse_address_str:
  "parse_address (JStr s) =
     Inr ((str ''route'', strip (split_on 44 s ! 0)) #
          (if 1 < length (split_on 44 s)
           then (str ''neighborhood'', strip (split_on 44 s ! 1)) #
                (if 2 < length (split_on 44 s)
                 then [(str ''locality'', strip (split_on 44 s ! 2))] else [])
           else []))"
  using split_on_nonempty [of 44 s]
  by (simp add: parse_address_def index_def Let_def)

lemma parse_address_Inr: "parse_address v = Inr ac \<Longrightarrow> \<exists>s. v = JStr s"
  by (cases v) (simp_all add: parse_address_def)

lemma address_field_route:
  "parse_address (JStr s) = Inr ac \<Longrightarrow> address_field ac (str ''route'') = strip (split_on 44 s ! 0)"
  by (auto simp add: parse_address_str address_field_def)

lemma address_field_neighborhood:
  "parse_address (JStr s) = Inr ac \<Longrightarrow>
   address_field ac (str ''neighborhood'') =
     (if 1 < length (split_on 44 s) then strip (split_on 44 s ! 1) else str ''N/A'')"
  by (auto simp add: parse_address_str address_field_def str_def)

lemma address_field_locality:
  "parse_address (JStr s) = Inr ac \<Longrightarrow>
   address_field ac (str ''locality'') =
     (if 2 < length (split_on 44 s) then strip (split_on 44 s ! 2) else str ''N/A'')"
  by (auto simp add: parse_address_str address_field_def str_def)

lemma process_pharmacy_Some:
  assumes "process_pharmacy env place_id city = Inr (Some p)"
  shows "\<exists>details s ac.
           get_company_details env place_id = Inr details \<and> truthy details \<and>
           dict_get details (str ''formatted_address'') (JStr []) = Inr (JStr s) \<and>
           parse_address (JStr s) = Inr ac \<and>
           PlaceID p = place_id \<and> Address p = JStr s \<and>
           Street p = address_field ac (str ''route'') \<and>
           Neighborhood p = address_field ac (str ''neighborhood'') \<and>
           City p = address_field ac (str ''locality'')"
proof -
  from assms obtain details fa ac where
    d: "get_company_details env place_id = Inr details" "truthy details" and
    fa: "dict_get details (str ''formatted_address'') (JStr []) = Inr fa" and
    ac: "parse_address fa = Inr ac" and
    p: "PlaceID p = place_id" "Address p = fa" "Street p = address_field ac (str ''route'')"
       "Neighborhood p = address_field ac (str ''neighborhood'')"
       "City p = address_field ac (str ''locality'')"
    by (auto simp: process_pharmacy_def then_do_Inr split: if_splits)
  from ac obtain s where "fa = JStr s"
    using parse_address_Inr by blast
  with d fa ac p show ?thesis
    by (intro exI [of _ details] exI [of _ s] exI [of _ ac]) simp
qed

lemma fetch_response_first:
  "http_get env (url, params) 0 = Response data \<Longrightarrow> fetch env url params = data"
  by (simp add: fetch_def fetch_json_def fetch_attempts.simps [of _ 3 _ 0])

lemma example_details_response:
  "details_response example_env place_id = example_details place_id"
  unfolding details_response_def
  by (rule fetch_response_first) (simp add: example_env_def example_http_get_def)

lemma str_eq_iff [simp]: "str a = str b \<longleftrightarrow> a = b"
  by (simp add: str_def inj_map_eq_map [OF inj_of_char])

lemma str_Nil_iff [simp]: "str a = [] \<longleftrightarrow> a = []" "[] = str a \<longleftrightarrow> a = []"
  by (auto simp add: str_def)

lemma example_cse [simp]: "CUSTOM_SEARCH_ENGINE_ID example_env = None"
  by (simp add: example_env_def)

lemma example_get_details_p1:
  "get_company_details example_env (JStr (str ''p1'')) =
     Inr (JDict [(str ''name'', JStr (str ''Drogaria Sol'')),
                 (str ''formatted_address'', JStr (str ''Rua A 10 , Centro'')),
                 (str ''user_ratings_total'', JInt 25),
                 (str ''geometry'',
                  JDict [(str ''location'',
                          JDict [(str ''lat'', JFloat (- 47 / 2)),
                                 (str ''lng'', JFloat (- 233 / 5))])])])"
  by (simp add: get_company_details_def example_details_response example_details_def then_do_def)

lemma example_get_details_p3:
  "get_company_details example_env (JStr (str ''p3'')) =
     Inr (JDict [(str ''name'', JStr (str ''Farma'')),
                 (str ''formatted_address'', JStr (str ''N/A''))])"
  by (simp add: get_company_details_def example_details_response example_details_def then_do_def)

lemma example_get_details_p2:
  "get_company_details example_env (JStr (str ''p2'')) = Inr (JDict [])"
  by (simp add: get_company_details_def example_details_response example_details_def then_do_def)

lemma example_process_p1:
  "process_pharmacy example_env (JStr (str ''p1'')) city = Inr (Some example_record_p1)"
  apply (simp add: process_pharmacy_def example_get_details_p1 then_do_def get_social_media_links_def
      types_column_def location_field_def address_field_def parse_address_str example_record_p1_def)
  apply (simp add: str_def strip_def isspace_def)
  done

lemma example_process_p3:
  "process_pharmacy example_env (JStr (str ''p3'')) city = Inr (Some example_record_p3)"
  apply (simp add: process_pharmacy_def example_get_details_p3 then_do_def get_social_media_links_def
      types_column_def location_field_def address_field_def parse_address_str example_record_p3_def)
  apply (simp add: str_def strip_def isspace_def)
  done

lemma example_process_p2:
  "process_pharmacy example_env (JStr (str ''p2'')) city = Inr None"
  by (simp add: process_pharmacy_def example_get_details_p2 then_do_def)

lemma join_split_on: "join_on sep (split_on sep s) = s"
proof (induction s)
  case Nil
  then show ?case by simp
next
  case (Cons c cs)
  obtain seg segs where sp: "split_on sep cs = seg # segs"
    using split_on_nonempty [of sep cs] by (cases "split_on sep cs") auto
  show ?case
  proof (cases "c = sep")
    case True
    with Cons sp show ?thesis by simp
  next
    case False
    with Cons sp show ?thesis by (cases segs) auto
  qed
qed

lemma split_on_no_separator: "seg \<in> set (split_on sep s) \<Longrightarrow> sep \<notin> set seg"
proof (induction s arbitrary: seg)
  case Nil
  then show ?case by simp
next
  case (Cons c cs)
  obtain seg' segs where sp: "split_on sep cs = seg' # segs"
    using split_on_nonempty [of sep cs] by (cases "split_on sep cs") auto
  with Cons show ?case by (auto split: if_splits)
qed

lemma strip_trimmed:
  "\<exists>l r. s = l @ strip s @ r \<and> (\<forall>c\<in>set l. isspace c) \<and> (\<forall>c\<in>set r. isspace c) \<and>
         (strip s \<noteq> [] \<longrightarrow> \<not> isspace (hd (strip s)) \<and> \<not> isspace (last (strip s)))"
proof -
  let ?t = "dropWhile isspace s"
  let ?l = "takeWhile isspace s"
  let ?r = "rev (takeWhile isspace (rev ?t))"
  have t: "?t = strip s @ ?r"
  proof -
    have "rev (dropWhile isspace (rev ?t)) @ rev (takeWhile isspace (rev ?t)) =
          rev (takeWhile isspace (rev ?t) @ dropWhile isspace (rev ?t))"
      by (simp only: rev_append)
    also have "\<dots> = rev (rev ?t)"
      by (simp only: takeWhile_dropWhile_id)
    finally have "rev (dropWhile isspace (rev ?t)) @ rev (takeWhile isspace (rev ?t)) = ?t"
      by simp
    then show ?thesis by (simp add: strip_def)
  qed
  have s: "s = ?l @ strip s @ ?r"
    using t takeWhile_dropWhile_id [of isspace s] by simp
  have l: "\<forall>c\<in>set ?l. isspace c" by (auto dest: set_takeWhileD)
  have r: "\<forall>c\<in>set ?r. isspace c" by (auto dest: set_takeWhileD)
  have e: "\<not> isspace (hd (strip s)) \<and> \<not> isspace (last (strip s))" if ne: "strip s \<noteq> []"
  proof -
    have tne: "?t \<noteq> []" using t ne by (metis Nil_is_append_conv)
    have "hd (strip s) = hd ?t" using t ne by (metis hd_append2)
    moreover have "\<not> isspace (hd ?t)" using tne by (rule hd_dropWhile)
    moreover have "last (strip s) = hd (dropWhile isspace (rev ?t))"
      using ne by (simp add: strip_def last_rev)
    moreover have "dropWhile isspace (rev ?t) \<noteq> []"
      using ne unfolding strip_def rev_is_Nil_conv .
    then have "\<not> isspace (hd (dropWhile isspace (rev ?t)))"
      by (rule hd_dropWhile)
    ultimately show ?thesis by simp
  qed
  from s l r e show ?thesis by blast
qed

text \<open>
  Claim C8.  For a formatted address \<open>s\<close>, the comma-separated segments are
  \<open>split_on 44 s\<close> (joining them with commas gives \<open>s\<close> back, none contains a comma, there
  is at least one).  \<open>parse_address\<close> sets route, neighborhood and locality to the trimmed
  first, second and third segment, as far as they exist, and the assembled record has
  \<open>N/A\<close> in \<open>Neighborhood\<close> and \<open>City\<close> where the segment is missing.
\<close>

theorem parse_address_segments:
  "join_on 44 (split_on 44 s) = s \<and> split_on 44 s \<noteq> [] \<and>
   (\<forall>seg\<in>set (split_on 44 s). 44 \<notin> set seg) \<and>
   parse_address (JStr s) =
     Inr ((str ''route'', strip (split_on 44 s ! 0)) #
          (if 1 < length (split_on 44 s)
           then (str ''neighborhood'', strip (split_on 44 s ! 1)) #
                (if 2 < length (split_on 44 s)
                 then [(str ''locality'', strip (split_on 44 s ! 2))] else [])
           else [])) \<and>
   (\<forall>env place_id city p.
      process_pharmacy env place_id city = Inr (Some p) \<and> Address p = JStr s \<longrightarrow>
        Street p = strip (split_on 44 s ! 0) \<and>
        Neighborhood p =
          (if 1 < length (split_on 44 s) then strip (split_on 44 s ! 1) else str ''N/A'') \<and>
        City p =
          (if 2 < length (split_on 44 s) then strip (split_on 44 s ! 2) else str ''N/A''))"
proof (intro conjI allI impI ballI)
  show "join_on 44 (split_on 44 s) = s" by (rule join_split_on)
  show "split_on 44 s \<noteq> []" by (rule split_on_nonempty)
  show "44 \<notin> set seg" if "seg \<in> set (split_on 44 s)" for seg
    using that by (rule split_on_no_separator)
  show "parse_address (JStr s) =
     Inr ((str ''route'', strip (split_on 44 s ! 0)) #
          (if 1 < length (split_on 44 s)
           then (str ''neighborhood'', strip (split_on 44 s ! 1)) #
                (if 2 < length (split_on 44 s)
                 then [(str ''locality'', strip (split_on 44 s ! 2))] else [])
           else []))"
    by (rule parse_address_str)
next
  fix env place_id city p
  assume h: "process_pharmacy env place_id city = Inr (Some p) \<and> Address p = JStr s"
  then obtain ac where ac: "parse_address (JStr s) = Inr ac"
    and p: "Street p = address_field ac (str ''route'')"
      "Neighborhood p = address_field ac (str ''neighborhood'')"
      "City p = address_field ac (str ''locality'')"
    using process_pharmacy_Some [of env place_id city p] by auto
  show "Street p = strip (split_on 44 s ! 0)"
    using ac p by (simp add: address_field_route)
  show "Neighborhood p =
          (if 1 < length (split_on 44 s) then strip (split_on 44 s ! 1) else str ''N/A'')"
    using ac p by (simp only: address_field_neighborhood)
  show "City p =
          (if 2 < length (split_on 44 s) then strip (split_on 44 s ! 2) else str ''N/A'')"
    using ac p by (simp only: address_field_locality)
qed

theorem parse_address_segments_witness:
  "process_pharmacy example_env (JStr (str ''p1'')) (str ''Campinas'') = Inr (Some example_record_p1) \<and>
   Address example_record_p1 = JStr (str ''Rua A 10 , Centro'') \<and>
   split_on 44 (str ''Rua A 10 , Centro'') = [str ''Rua A 10 '', str '' Centro''] \<and>
   Street example_record_p1 = str ''Rua A 10'' \<and>
   Neighborhood example_record_p1 = str ''Centro'' \<and>
   City example_record_p1 = str ''N/A''"
proof -
  have h: "process_pharmacy example_env (JStr (str ''p1'')) (str ''Campinas'') =
             Inr (Some example_record_p1) \<and>
           Address example_record_p1 = JStr (str ''Rua A 10 , Centro'')"
    by (simp add: example_process_p1) (simp add: example_record_p1_def)
  have sp: "split_on 44 (str ''Rua A 10 , Centro'') = [str ''Rua A 10 '', str '' Centro'']"
    by (simp add: str_def)
  have st: "strip (str ''Rua A 10 '') = str ''Rua A 10''" "strip (str '' Centro'') = str ''Centro''"
    by (simp_all add: str_def strip_def isspace_def)
  from parse_address_segments [of "str ''Rua A 10 , Centro''"] h
  have "Street example_record_p1 = strip (split_on 44 (str ''Rua A 10 , Centro'') ! 0) \<and>
        Neighborhood example_record_p1 =
          (if 1 < length (split_on 44 (str ''Rua A 10 , Centro''))
           then strip (split_on 44 (str ''Rua A 10 , Centro'') ! 1) else str ''N/A'') \<and>
        City example_record_p1 =
          (if 2 < length (split_on 44 (str ''Rua A 10 , Centro''))
           then strip (split_on 44 (str ''Rua A 10 , Centro'') ! 2) else str ''N/A'')"
    by blast
  then show ?thesis using h sp st by simp
qed

lemma split_on_no_sep: "sep \<notin> set s \<Longrightarrow> split_on sep s = [s]"
  by (induction s) auto

lemma hd_split_on_Nil: "hd (split_on sep []) = []"
  by simp

text \<open>
  Claim C10, amended.  In every record assembled by \<open>process_pharmacy\<close> the address is a
  string and \<open>parse_address\<close> has set the route component, so \<open>Street\<close> never falls back
  to the default: it is the trimmed first comma-separated segment of the address (the
  whole trimmed address when there is no comma, the empty string when the address is
  missing or empty).  Only \<open>Neighborhood\<close> and \<open>City\<close> take the default \<open>N/A\<close>, when there
  are fewer than two or three segments.
\<close>

theorem street_is_first_segment:
  assumes "process_pharmacy env place_id city = Inr (Some p)"
  shows "\<exists>s ac. Address p = JStr s \<and> parse_address (JStr s) = Inr ac \<and>
           map_of ac (str ''route'') = Some (Street p) \<and>
           Street p = strip (hd (split_on 44 s)) \<and>
           (44 \<notin> set s \<longrightarrow> Street p = strip s) \<and>
           (s = [] \<longrightarrow> Street p = []) \<and>
           (\<forall>kvs. get_company_details env place_id = Inr (JDict kvs) \<and>
                  map_of kvs (str ''formatted_address'') = None \<longrightarrow> s = []) \<and>
           (length (split_on 44 s) < 2 \<longrightarrow> Neighborhood p = str ''N/A'') \<and>
           (length (split_on 44 s) < 3 \<longrightarrow> City p = str ''N/A'')"
proof -
  from process_pharmacy_Some [OF assms] obtain details s ac where
    d: "get_company_details env place_id = Inr details" and
    fa: "dict_get details (str ''formatted_address'') (JStr []) = Inr (JStr s)" and
    ac: "parse_address (JStr s) = Inr ac" and
    p: "Address p = JStr s" "Street p = address_field ac (str ''route'')"
       "Neighborhood p = address_field ac (str ''neighborhood'')"
       "City p = address_field ac (str ''locality'')"
    by blast
  have hd0: "split_on 44 s ! 0 = hd (split_on 44 s)"
    using split_on_nonempty [of 44 s] by (simp add: hd_conv_nth)
  have route: "map_of ac (str ''route'') = Some (strip (hd (split_on 44 s)))"
    using ac hd0 by (auto simp: parse_address_str)
  have street: "Street p = strip (hd (split_on 44 s))"
    using p(2) route by (simp add: address_field_def)
  have whole: "Street p = strip s" if "44 \<notin> set s"
    using street that by (simp add: split_on_no_sep)
  have empty: "Street p = []" if "s = []"
    using street that by (simp add: strip_def)
  have missing: "s = []"
    if "get_company_details env place_id = Inr (JDict kvs) \<and>
        map_of kvs (str ''formatted_address'') = None" for kvs
    using that d fa by auto
  have nb: "Neighborhood p = str ''N/A''" if "length (split_on 44 s) < 2"
    using that p(3) address_field_neighborhood [OF ac] by simp
  have ct: "City p = str ''N/A''" if "length (split_on 44 s) < 3"
    using that p(4) address_field_locality [OF ac] by simp
  show ?thesis
    using p(1) ac route street whole empty missing nb ct
    by (intro exI [of _ s] exI [of _ ac]) (auto simp add: street)
qed

theorem street_is_first_segment_witness:
  "process_pharmacy example_env (JStr (str ''p1'')) (str ''Campinas'') = Inr (Some example_record_p1) \<and>
   Address example_record_p1 = JStr (str ''Rua A 10 , Centro'') \<and>
   Street example_record_p1 = strip (hd (split_on 44 (str ''Rua A 10 , Centro''))) \<and>
   Street example_record_p1 = str ''Rua A 10''"
proof -
  have h: "process_pharmacy example_env (JStr (str ''p1'')) (str ''Campinas'') =
             Inr (Some example_record_p1)"
    by (rule example_process_p1)
  from street_is_first_segment [OF h] obtain s where
    "Address example_record_p1 = JStr s" "Street example_record_p1 = strip (hd (split_on 44 s))"
    by blast
  then show ?thesis using h by (simp add: example_record_p1_def)
qed

text \<open>
  Claim C10 as stated fails: a formatted address whose first segment reads \<open>N/A\<close> gives a
  record with \<open>Street\<close> equal to \<open>N/A\<close>.
\<close>

theorem street_can_read_NA:
  "process_pharmacy example_env (JStr (str ''p3'')) (str ''Campinas'') = Inr (Some example_record_p3) \<and>
   Street example_record_p3 = str ''N/A''"
  by (simp add: example_process_p3) (simp add: example_record_p3_def)

section \<open>Properties of the run\<close>

lemma add_companies_processed_mono:
  "processed_place_ids r \<subseteq> processed_place_ids (add_companies city cds r)"
proof (induction city cds r rule: add_companies.induct)
  case (3 city company company_details r)
  then show ?case by (auto simp: Let_def split: sum.splits)
qed simp_all

lemma add_companies_saved [simp]: "saved (add_companies city cds r) = saved r"
  by (induction city cds r rule: add_companies.induct) (auto simp: Let_def split: sum.splits)

lemma add_companies_detail_tasks [simp]:
  "detail_tasks (add_companies city cds r) = detail_tasks r"
  by (induction city cds r rule: add_companies.induct) (auto simp: Let_def split: sum.splits)

lemma in_add_companies:
  "k \<in> processed_place_ids r \<Longrightarrow> k \<in> processed_place_ids (add_companies city cds r)"
  using add_companies_processed_mono by blast

lemma collect_city_processed_mono:
  "processed_place_ids r \<subseteq> processed_place_ids (collect_city env r cb)"
  by (auto simp: collect_city_def Let_def save_processed_place_ids_def
        split: prod.splits sum.splits intro!: in_add_companies)

lemma collect_city_saved:
  "saved (collect_city env r cb) = saved r \<or>
   saved (collect_city env r cb) = saved r @ [processed_place_ids (collect_city env r cb)]"
  by (auto simp: collect_city_def Let_def save_processed_place_ids_def
        split: prod.splits sum.splits)

lemma collect_cities_processed_mono:
  "processed_place_ids r \<subseteq> processed_place_ids (collect_cities env r cities)"
proof (induction cities arbitrary: r)
  case Nil
  then show ?case by simp
next
  case (Cons cb cities)
  show ?case
    using collect_city_processed_mono [of r env cb] Cons [of "collect_city env r cb"]
    by (auto simp: Let_def)
qed

lemma grown_from_collect_city:
  assumes "grown_from P r"
  shows "grown_from P (collect_city env r cb)"
proof -
  let ?r' = "collect_city env r cb"
  have mono: "processed_place_ids r \<subseteq> processed_place_ids ?r'"
    by (rule collect_city_processed_mono)
  from collect_city_saved [of env r cb] show ?thesis
  proof
    assume "saved ?r' = saved r"
    with assms mono show ?thesis by (simp add: grown_from_def) blast
  next
    assume "saved ?r' = saved r @ [processed_place_ids ?r']"
    with assms mono show ?thesis
      by (simp add: grown_from_def sorted_wrt_append) blast
  qed
qed

lemma grown_from_collect_cities:
  "grown_from P r \<Longrightarrow> grown_from P (collect_cities env r cities)"
proof (induction cities arbitrary: r)
  case Nil
  then show ?case by simp
next
  case (Cons cb cities)
  then show ?case
    using grown_from_collect_city [of P r env cb] by (auto simp: Let_def)
qed

lemma grown_from_start: "grown_from (load_processed_place_ids file) (start file)"
  by (simp add: grown_from_def start_def)

text \<open>
  Claim C4.  Within a run the set of processed identifiers only grows: one city leaves it
  a superset of what it was, so does any sequence of cities, and in a whole run every
  snapshot written to the state file contains the set loaded at the start and every
  earlier snapshot, and is contained in the set in memory at the end.
\<close>

theorem processed_ids_only_grow:
  "processed_place_ids r \<subseteq> processed_place_ids (collect_city env r cb) \<and>
   processed_place_ids r \<subseteq> processed_place_ids (collect_cities env r cities) \<and>
   load_processed_place_ids file \<subseteq> processed_place_ids (collect_over env cities file) \<and>
   (\<forall>i j. i \<le> j \<and> j < length (saved (collect_over env cities file)) \<longrightarrow>
      load_processed_place_ids file \<subseteq> saved (collect_over env cities file) ! i \<and>
      saved (collect_over env cities file) ! i \<subseteq> saved (collect_over env cities file) ! j \<and>
      saved (collect_over env cities file) ! j \<subseteq>
        processed_place_ids (collect_over env cities file))"
proof -
  let ?r = "collect_over env cities file"
  have g: "grown_from (load_processed_place_ids file) ?r"
    unfolding collect_over_def by (intro grown_from_collect_cities grown_from_start)
  have chain: "saved ?r ! i \<subseteq> saved ?r ! j" if "i \<le> j" "j < length (saved ?r)" for i j
  proof (cases "i = j")
    case True
    then show ?thesis by simp
  next
    case False
    with that have "i < j" by simp
    with g that show ?thesis by (simp add: grown_from_def sorted_wrt_iff_nth_less)
  qed
  have each: "load_processed_place_ids file \<subseteq> saved ?r ! i \<and>
              saved ?r ! i \<subseteq> processed_place_ids ?r" if "i < length (saved ?r)" for i
    using g that by (simp add: grown_from_def)
  show ?thesis
    using collect_city_processed_mono [of r env cb] collect_cities_processed_mono [of r env cities]
      g chain each
    by (simp add: grown_from_def)
qed

lemma key_of_Some: "key_of v = Some k \<longleftrightarrow> hash_key v = Inr k"
  by (simp add: key_of_def split: sum.splits)

lemma key_of_None: "key_of v = None \<longleftrightarrow> raises (hash_key v)"
  by (simp add: key_of_def raises_def split: sum.splits)

lemma hash_key_eq_iff: "hash_key v = hash_key w \<longleftrightarrow> key_of v = key_of w"
  by (cases "hash_key v"; cases "hash_key w"; cases v; cases w) (simp_all add: key_of_def)

lemma entity_id_Some:
  "entity_id place = Some k \<longleftrightarrow>
     (\<exists>pid. py_subscript place (str ''place_id'') = Inr pid \<and> hash_key pid = Inr k)"
  by (auto simp: entity_id_def key_of_Some split: sum.splits)

lemma candidate_keys_iff: "k \<in> candidate_keys places \<longleftrightarrow> (\<exists>place\<in>set places. entity_id place = Some k)"
  by (induction places) (auto simp: candidate_keys_def split: option.splits)

lemma set_set_add: "set (set_add v xs) = (if hash_key v \<in> hash_key ` set xs then set xs else insert v (set xs))"
  by (simp add: set_add_def)

lemma key_of_set_add: "key_of ` set (set_add v xs) = insert (key_of v) (key_of ` set xs)"
proof -
  have "hash_key v \<in> hash_key ` set xs \<longleftrightarrow> key_of v \<in> key_of ` set xs"
    by (auto simp: hash_key_eq_iff image_iff)
  then show ?thesis by (auto simp: set_add_def)
qed

lemma distinct_set_add:
  "distinct (map key_of xs) \<Longrightarrow> distinct (map key_of (set_add v xs))"
proof -
  have "hash_key v \<in> hash_key ` set xs \<longleftrightarrow> key_of v \<in> key_of ` set xs"
    by (auto simp: hash_key_eq_iff image_iff)
  then show "distinct (map key_of xs) \<Longrightarrow> distinct (map key_of (set_add v xs))"
    by (auto simp: set_add_def)
qed

lemma new_place_ids_keys:
  assumes "new_place_ids P places acc = Inr ids"
  shows "key_of ` set ids = key_of ` set acc \<union> Some ` (candidate_keys places - P)"
  using assms
proof (induction places arbitrary: acc)
  case Nil
  then show ?case by (simp add: candidate_keys_def)
next
  case (Cons place places)
  from Cons.prems obtain pid k where
    pid: "py_subscript place (str ''place_id'') = Inr pid" and k: "hash_key pid = Inr k"
    by (auto split: sum.splits)
  have e: "entity_id place = Some k"
    using pid k by (auto simp: entity_id_Some)
  have ck: "candidate_keys (place # places) = insert k (candidate_keys places)"
    using e by (simp add: candidate_keys_def)
  have kk: "key_of pid = Some k"
    using k by (simp add: key_of_Some)
  show ?case
  proof (cases "k \<in> P")
    case True
    with Cons.prems pid k have "new_place_ids P places acc = Inr ids" by simp
    from Cons.IH [OF this] True ck show ?thesis by auto
  next
    case False
    with Cons.prems pid k have "new_place_ids P places (set_add pid acc) = Inr ids" by simp
    from Cons.IH [OF this] False ck kk show ?thesis
      by (auto simp: key_of_set_add)
  qed
qed

lemma new_place_ids_distinct:
  assumes "new_place_ids P places acc = Inr ids" and "distinct (map key_of acc)"
  shows "distinct (map key_of ids)"
  using assms
proof (induction places arbitrary: acc)
  case Nil
  then show ?case by simp
next
  case (Cons place places)
  then show ?case
    by (auto split: sum.splits if_splits intro: distinct_set_add)
qed

lemma new_place_ids_hashable:
  assumes "new_place_ids P places acc = Inr ids" and "\<forall>v\<in>set acc. key_of v \<noteq> None"
  shows "\<forall>v\<in>set ids. key_of v \<noteq> None"
proof -
  have "key_of ` set ids = key_of ` set acc \<union> Some ` (candidate_keys places - P)"
    using assms(1) by (rule new_place_ids_keys)
  then have "None \<notin> key_of ` set ids" using assms(2) by (auto simp: image_iff)
  then show ?thesis by (metis image_eqI)
qed

lemma new_place_ids_Nil_iff:
  assumes "new_place_ids P places [] = Inr ids"
  shows "ids = [] \<longleftrightarrow> candidate_keys places \<subseteq> P"
proof -
  have "key_of ` set ids = Some ` (candidate_keys places - P)"
    using new_place_ids_keys [OF assms] by simp
  then have "set ids = {} \<longleftrightarrow> candidate_keys places - P = {}"
    by (metis image_is_empty)
  then show ?thesis by auto
qed

lemma gather_Inr: "gather rs = Inr vs \<Longrightarrow> rs = map Inr vs"
  by (induction rs arbitrary: vs rule: gather.induct) (auto split: sum.splits)

lemma gather_Inl: "gather rs = Inl e \<Longrightarrow> Inl e \<in> set rs"
  by (induction rs rule: gather.induct) (auto split: sum.splits)

lemma gather_no_raise: "\<forall>r\<in>set rs. \<not> raises r \<Longrightarrow> \<exists>vs. gather rs = Inr vs"
  by (induction rs rule: gather.induct) (auto simp: raises_def split: sum.splits)

lemma map_of_append_company:
  "map_of (append_company city c acs) city' =
     (if city' = city
      then Some ((case map_of acs city of None \<Rightarrow> [] | Some cs \<Rightarrow> cs) @ [c])
      else map_of acs city')"
  by (induction city c acs rule: append_company.induct) auto

lemma companies_of_append:
  "companies_of (r\<lparr>all_companies := append_company city c (all_companies r)\<rparr>) city' =
     (if city' = city then companies_of r city @ [c] else companies_of r city')"
  by (simp add: companies_of_def map_of_append_company)

lemma companies_of_update [simp]:
  "companies_of (r\<lparr>processed_place_ids := P\<rparr>) city = companies_of r city"
  "companies_of (r\<lparr>detail_tasks := d\<rparr>) city = companies_of r city"
  "companies_of (r\<lparr>saved := s\<rparr>) city = companies_of r city"
  "companies_of (r\<lparr>raised := e\<rparr>) city = companies_of r city"
  by (simp_all add: companies_of_def)

lemma add_companies_hashable:
  assumes "\<forall>c. Some c \<in> set cds \<longrightarrow> key_of (PlaceID c) \<noteq> None"
  shows "raised (add_companies city cds r) = raised r \<and>
         processed_place_ids (add_companies city cds r) =
           processed_place_ids r \<union> {k. \<exists>c. Some c \<in> set cds \<and> key_of (PlaceID c) = Some k} \<and>
         companies_of (add_companies city cds r) city' =
           (if city' = city then companies_of r city @ List.map_filter (\<lambda>c. c) cds
            else companies_of r city')"
  using assms
proof (induction city cds r rule: add_companies.induct)
  case (1 city r)
  then show ?case by simp
next
  case (2 city company_details r)
  then show ?case by simp
next
  case (3 city company company_details r)
  from "3.prems" obtain k where k: "hash_key (PlaceID company) = Inr k"
    by (auto simp: key_of_def split: sum.splits)
  then have kk: "key_of (PlaceID company) = Some k" by (simp add: key_of_Some)
  let ?r1 = "r\<lparr>all_companies := append_company city company (all_companies r)\<rparr>"
  let ?r2 = "?r1\<lparr>processed_place_ids := insert k (processed_place_ids ?r1)\<rparr>"
  have step: "add_companies city (Some company # company_details) r =
              add_companies city company_details ?r2"
    using k by (simp add: Let_def)
  have ih: "raised (add_companies city company_details ?r2) = raised ?r2 \<and>
         processed_place_ids (add_companies city company_details ?r2) =
           processed_place_ids ?r2 \<union>
             {k. \<exists>c. Some c \<in> set company_details \<and> key_of (PlaceID c) = Some k} \<and>
         companies_of (add_companies city company_details ?r2) city' =
           (if city' = city then companies_of ?r2 city @ List.map_filter (\<lambda>c. c) company_details
            else companies_of ?r2 city')"
    using "3.IH" [OF refl k] "3.prems" by simp
  show ?case
    unfolding step using ih kk
    by (auto simp: companies_of_append)
qed

lemma iterates_set: "iterates_each_once env \<Longrightarrow> set (set_iter env xs) = set xs"
  by (simp add: iterates_each_once_def)

lemma iterates_Nil: "iterates_each_once env \<Longrightarrow> set_iter env xs = [] \<longleftrightarrow> xs = []"
  by (metis iterates_each_once_def length_0_conv)

lemma process_pharmacy_PlaceID:
  "process_pharmacy env place_id city = Inr (Some c) \<Longrightarrow> PlaceID c = place_id"
  using process_pharmacy_Some by blast

lemma batch_companies_hashable:
  assumes it: "iterates_each_once env"
    and np: "new_place_ids P results [] = Inr ids"
    and g: "map (\<lambda>pid. process_pharmacy env pid city) (set_iter env ids) = map Inr cds"
    and c: "Some c \<in> set cds"
  shows "PlaceID c \<in> set ids \<and> process_pharmacy env (PlaceID c) city = Inr (Some c) \<and>
         key_of (PlaceID c) \<noteq> None"
proof -
  from c have "Inr (Some c) \<in> set (map Inr cds)" by simp
  with g obtain pid where pid: "pid \<in> set (set_iter env ids)"
    "process_pharmacy env pid city = Inr (Some c)"
    by (metis (no_types, lifting) imageE list.set_map)
  then have eq: "PlaceID c = pid" by (simp add: process_pharmacy_PlaceID)
  have "pid \<in> set ids" using pid(1) it by (simp add: iterates_set)
  moreover have "\<forall>v\<in>set ids. key_of v \<noteq> None"
    using np by (rule new_place_ids_hashable) simp
  ultimately show ?thesis using eq pid(2) by simp
qed

lemma collect_city_cases:
  assumes it: "iterates_each_once env" and nr: "raised r = None"
  obtains
    (stopped) e where "collect_city env r (city, bairros) = r\<lparr>raised := Some e\<rparr>"
  | (skipped) results where
      "search_bairros env bairros [] = Inr results"
      "new_place_ids (processed_place_ids r) results [] = Inr []"
      "collect_city env r (city, bairros) = r"
  | (failed) results ids e where
      "search_bairros env bairros [] = Inr results"
      "new_place_ids (processed_place_ids r) results [] = Inr ids" "ids \<noteq> []"
      "Inl e \<in> set (map (\<lambda>pid. process_pharmacy env pid city) (set_iter env ids))"
      "collect_city env r (city, bairros) =
         r\<lparr>detail_tasks := detail_tasks r @ set_iter env ids, raised := Some e\<rparr>"
  | (enriched) results ids cds where
      "search_bairros env bairros [] = Inr results"
      "new_place_ids (processed_place_ids r) results [] = Inr ids" "ids \<noteq> []"
      "map (\<lambda>pid. process_pharmacy env pid city) (set_iter env ids) = map Inr cds"
      "collect_city env r (city, bairros) =
         save_processed_place_ids
           (add_companies city cds (r\<lparr>detail_tasks := detail_tasks r @ set_iter env ids\<rparr>))"
proof (cases "search_bairros env bairros []")
  case (Inl e)
  then show ?thesis by (intro stopped [of e]) (simp add: collect_city_def)
next
  case sb: (Inr results)
  show ?thesis
  proof (cases "new_place_ids (processed_place_ids r) results []")
    case (Inl e)
    with sb show ?thesis by (intro stopped [of e]) (simp add: collect_city_def)
  next
    case np: (Inr ids)
    show ?thesis
    proof (cases "ids = []")
      case True
      with sb np show ?thesis by (intro skipped [of results]) (simp_all add: collect_city_def)
    next
      case ne: False
      let ?batch = "set_iter env ids"
      let ?r1 = "r\<lparr>detail_tasks := detail_tasks r @ ?batch\<rparr>"
      show ?thesis
      proof (cases "gather (map (\<lambda>pid. process_pharmacy env pid city) ?batch)")
        case (Inl e)
        then have "Inl e \<in> set (map (\<lambda>pid. process_pharmacy env pid city) ?batch)"
          by (rule gather_Inl)
        with sb np ne Inl show ?thesis
          by (intro failed [of results ids e]) (simp_all add: collect_city_def)
      next
        case (Inr cds)
        then have g: "map (\<lambda>pid. process_pharmacy env pid city) ?batch = map Inr cds"
          by (rule gather_Inr)
        have "\<forall>c. Some c \<in> set cds \<longrightarrow> key_of (PlaceID c) \<noteq> None"
          using batch_companies_hashable [OF it np g] by blast
        then have "raised (add_companies city cds ?r1) = raised ?r1"
          using add_companies_hashable [of cds city ?r1] by blast
        then have "raised (add_companies city cds ?r1) = None" using nr by simp
        with sb np ne Inr g show ?thesis
          by (intro enriched [of results ids cds]) (simp_all add: collect_city_def)
      qed
    qed
  qed
qed

lemma trackedD:
  assumes "tracked P file r"
  shows "P \<subseteq> processed_place_ids r"
    and "\<And>pid. pid \<in> set (detail_tasks r) \<Longrightarrow> \<exists>k. key_of pid = Some k \<and> k \<notin> P"
    and "\<And>city c. c \<in> set (companies_of r city) \<Longrightarrow>
           PlaceID c \<in> set (detail_tasks r) \<and>
           (\<exists>k. key_of (PlaceID c) = Some k \<and> k \<in> processed_place_ids r)"
    and "processed_place_ids r = load_processed_place_ids (file_after file r)"
  using assms unfolding tracked_def by blast+

lemma batch_fresh:
  assumes it: "iterates_each_once env"
    and np: "new_place_ids P results [] = Inr ids"
    and pid: "pid \<in> set (set_iter env ids)"
  shows "\<exists>k. key_of pid = Some k \<and> k \<in> candidate_keys results \<and> k \<notin> P"
proof -
  have "key_of ` set ids = Some ` (candidate_keys results - P)"
    using new_place_ids_keys [OF np] by simp
  moreover have "pid \<in> set ids" using pid it by (simp add: iterates_set)
  ultimately have "key_of pid \<in> Some ` (candidate_keys results - P)" by blast
  then show ?thesis by auto
qed

lemma set_map_filter_id: "set (List.map_filter (\<lambda>c. c) cds) = {c. Some c \<in> set cds}"
  by (induction cds) (auto split: option.splits)

lemma enriched_step:
  assumes it: "iterates_each_once env"
    and np: "new_place_ids (processed_place_ids r) results [] = Inr ids"
    and g: "map (\<lambda>pid. process_pharmacy env pid city) (set_iter env ids) = map Inr cds"
    and r': "r' = save_processed_place_ids
                    (add_companies city cds (r\<lparr>detail_tasks := detail_tasks r @ set_iter env ids\<rparr>))"
  shows "raised r' = raised r"
    and "detail_tasks r' = detail_tasks r @ set_iter env ids"
    and "saved r' = saved r @ [processed_place_ids r']"
    and "processed_place_ids r' =
           processed_place_ids r \<union> {k. \<exists>c. Some c \<in> set cds \<and> key_of (PlaceID c) = Some k}"
    and "companies_of r' city' =
           (if city' = city then companies_of r city @ List.map_filter (\<lambda>c. c) cds
            else companies_of r city')"
proof -
  let ?r1 = "r\<lparr>detail_tasks := detail_tasks r @ set_iter env ids\<rparr>"
  have h: "\<forall>c. Some c \<in> set cds \<longrightarrow> key_of (PlaceID c) \<noteq> None"
    using batch_companies_hashable [OF it np g] by blast
  note a = add_companies_hashable [OF h, of city ?r1 city']
  show "raised r' = raised r" using a by (simp add: r' save_processed_place_ids_def)
  show "detail_tasks r' = detail_tasks r @ set_iter env ids"
    by (simp add: r' save_processed_place_ids_def)
  show "saved r' = saved r @ [processed_place_ids r']"
    by (simp add: r' save_processed_place_ids_def)
  show "processed_place_ids r' =
           processed_place_ids r \<union> {k. \<exists>c. Some c \<in> set cds \<and> key_of (PlaceID c) = Some k}"
    using a by (simp add: r' save_processed_place_ids_def)
  show "companies_of r' city' =
           (if city' = city then companies_of r city @ List.map_filter (\<lambda>c. c) cds
            else companies_of r city')"
    using a by (simp add: r' save_processed_place_ids_def companies_of_def)
qed

lemma tracked_collect_city:
  assumes it: "iterates_each_once env" and nr: "raised r = None" and t: "tracked P file r"
  shows "tracked P file (collect_city env r (city, bairros))"
  using it nr
proof (cases rule: collect_city_cases [where city = city and bairros = bairros])
  case (stopped e)
  have "tracked P file (r\<lparr>raised := Some e\<rparr>) = tracked P file r"
    unfolding tracked_def file_after_def by simp
  with t stopped show ?thesis by simp
next
  case (skipped results)
  with t show ?thesis by simp
next
  case (failed results ids e)
  have fresh: "\<forall>pid\<in>set (set_iter env ids). \<exists>k. key_of pid = Some k \<and> k \<notin> P"
    using batch_fresh [OF it failed(2)] trackedD(1) [OF t] by blast
  show ?thesis
    unfolding failed(5) tracked_def
    using trackedD [OF t] fresh by (auto simp: file_after_def)
next
  case (enriched results ids cds)
  let ?r' = "collect_city env r (city, bairros)"
  note e = enriched_step [OF it enriched(2) enriched(4) enriched(5)]
  have fresh: "\<forall>pid\<in>set (set_iter env ids). \<exists>k. key_of pid = Some k \<and> k \<notin> P"
    using batch_fresh [OF it enriched(2)] trackedD(1) [OF t] by blast
  have new: "PlaceID c \<in> set (set_iter env ids) \<and> (\<exists>k. key_of (PlaceID c) = Some k)"
    if "Some c \<in> set cds" for c
    using batch_companies_hashable [OF it enriched(2) enriched(4) that] it
    by (auto simp: iterates_set)
  have 1: "P \<subseteq> processed_place_ids ?r'"
    using trackedD(1) [OF t] e(4) by auto
  have 2: "\<forall>pid\<in>set (detail_tasks ?r'). \<exists>k. key_of pid = Some k \<and> k \<notin> P"
    using trackedD(2) [OF t] fresh e(2) by auto
  have 3: "PlaceID c \<in> set (detail_tasks ?r') \<and>
           (\<exists>k. key_of (PlaceID c) = Some k \<and> k \<in> processed_place_ids ?r')"
    if c: "c \<in> set (companies_of ?r' city')" for c city'
  proof (cases "c \<in> set (companies_of r city')")
    case True
    then have "PlaceID c \<in> set (detail_tasks r) \<and>
           (\<exists>k. key_of (PlaceID c) = Some k \<and> k \<in> processed_place_ids r)"
      by (rule trackedD(3) [OF t])
    then show ?thesis using e(2) e(4) by auto
  next
    case False
    with c e(5) [of city'] have "Some c \<in> set cds"
      by (auto simp: set_map_filter_id split: if_splits)
    with new [of c] e(2) e(4) show ?thesis by auto
  qed
  have 4: "processed_place_ids ?r' = load_processed_place_ids (file_after file ?r')"
    using e(3) by (simp add: file_after_def load_processed_place_ids_def)
  show ?thesis
    unfolding tracked_def using 1 2 3 4 by blast
qed

lemma tracked_collect_cities:
  assumes "iterates_each_once env" and "raised r = None" and "tracked P file r"
  shows "tracked P file (collect_cities env r cities)"
  using assms(2,3)
proof (induction cities arbitrary: r)
  case Nil
  then show ?case by simp
next
  case (Cons cb cities)
  obtain city bairros where cb: "cb = (city, bairros)" by (cases cb)
  have t1: "tracked P file (collect_city env r cb)"
    unfolding cb using assms(1) Cons.prems by (rule tracked_collect_city)
  show ?case
  proof (cases "raised (collect_city env r cb) = None")
    case True
    with Cons.IH [OF True t1] show ?thesis by (simp add: Let_def)
  next
    case False
    with t1 show ?thesis by (auto simp add: Let_def)
  qed
qed

lemma tracked_start: "tracked (load_processed_place_ids file) file (start file)"
  by (simp add: tracked_def start_def companies_of_def file_after_def)

lemma tracked_collect_over:
  "iterates_each_once env \<Longrightarrow>
   tracked (load_processed_place_ids file) file (collect_over env cities file)"
  unfolding collect_over_def
  by (intro tracked_collect_cities tracked_start) (simp_all add: start_def)

lemma collect_city_tasks:
  assumes it: "iterates_each_once env"
    and sb: "search_bairros env bairros [] = Inr results"
    and np: "new_place_ids (processed_place_ids r) results [] = Inr ids"
  shows "detail_tasks (collect_city env r (city, bairros)) = detail_tasks r @ set_iter env ids"
proof (cases "ids = []")
  case True
  then have "set_iter env ids = []" using it by (simp add: iterates_Nil)
  with True sb np show ?thesis by (simp add: collect_city_def)
next
  case False
  with sb np show ?thesis
    by (simp add: collect_city_def Let_def save_processed_place_ids_def split: sum.splits)
qed

lemma collect_city_skip:
  assumes sb: "search_bairros env bairros [] = Inr results"
    and np: "new_place_ids (processed_place_ids r) results [] = Inr ids"
    and seen: "candidate_keys results \<subseteq> processed_place_ids r"
  shows "collect_city env r (city, bairros) = r"
proof -
  have "ids = []" using new_place_ids_Nil_iff [OF np] seen by simp
  with sb np show ?thesis by (simp add: collect_city_def)
qed

text \<open>
  Claim C3.  Let a first run leave its state file, and let a second run load it.  The file
  holds exactly the set the first run ended with, which contains the identifier of every
  record the first run collected.  In the second run no enrichment task is started, and
  no record collected, for an identifier of that set.  For each city the identifiers
  handed to enrichment are, each once, the candidate identifiers not yet in the set, and
  a city all of whose candidates are in the set leaves the state as it is: no task, no
  write.  This holds whatever the upstream answers, in particular when they are the
  same in both runs.
\<close>

theorem rerun_skips_processed:
  assumes "iterates_each_once env1" and "iterates_each_once env2"
  shows "let r1 = collect_over env1 cities1 file;
             file2 = file_after file r1;
             r2 = collect_over env2 cities2 file2
         in load_processed_place_ids file2 = processed_place_ids r1 \<and>
            (\<forall>city. \<forall>c\<in>set (companies_of r1 city).
               \<exists>k. key_of (PlaceID c) = Some k \<and> k \<in> processed_place_ids r1) \<and>
            (\<forall>pid\<in>set (detail_tasks r2). \<exists>k. key_of pid = Some k \<and> k \<notin> processed_place_ids r1) \<and>
            (\<forall>city. \<forall>c\<in>set (companies_of r2 city).
               \<exists>k. key_of (PlaceID c) = Some k \<and> k \<notin> processed_place_ids r1) \<and>
            (\<forall>r city bairros results ids.
               search_bairros env2 bairros [] = Inr results \<and>
               new_place_ids (processed_place_ids r) results [] = Inr ids \<longrightarrow>
                 key_of ` set ids = Some ` (candidate_keys results - processed_place_ids r) \<and>
                 distinct (map key_of ids) \<and>
                 set (set_iter env2 ids) = set ids \<and>
                 detail_tasks (collect_city env2 r (city, bairros)) =
                   detail_tasks r @ set_iter env2 ids \<and>
                 (candidate_keys results \<subseteq> processed_place_ids r \<longrightarrow>
                    collect_city env2 r (city, bairros) = r))"
proof -
  define r1 where "r1 = collect_over env1 cities1 file"
  define file2 where "file2 = file_after file r1"
  define r2 where "r2 = collect_over env2 cities2 file2"
  have t1: "tracked (load_processed_place_ids file) file r1"
    unfolding r1_def using assms(1) by (rule tracked_collect_over)
  have t2: "tracked (load_processed_place_ids file2) file2 r2"
    unfolding r2_def using assms(2) by (rule tracked_collect_over)
  have a: "load_processed_place_ids file2 = processed_place_ids r1"
    unfolding file2_def using trackedD(4) [OF t1] by simp
  have b: "\<exists>k. key_of (PlaceID c) = Some k \<and> k \<in> processed_place_ids r1"
    if "c \<in> set (companies_of r1 city)" for city c
    using trackedD(3) [OF t1 that] by blast
  have c: "\<exists>k. key_of pid = Some k \<and> k \<notin> processed_place_ids r1"
    if "pid \<in> set (detail_tasks r2)" for pid
    using trackedD(2) [OF t2 that] a by simp
  have d: "\<exists>k. key_of (PlaceID c) = Some k \<and> k \<notin> processed_place_ids r1"
    if "c \<in> set (companies_of r2 city)" for city c
    using trackedD(3) [OF t2 that] c by blast
  have e: "key_of ` set ids = Some ` (candidate_keys results - processed_place_ids r) \<and>
           distinct (map key_of ids) \<and>
           set (set_iter env2 ids) = set ids \<and>
           detail_tasks (collect_city env2 r (city, bairros)) =
             detail_tasks r @ set_iter env2 ids \<and>
           (candidate_keys results \<subseteq> processed_place_ids r \<longrightarrow>
              collect_city env2 r (city, bairros) = r)"
    if h: "search_bairros env2 bairros [] = Inr results \<and>
           new_place_ids (processed_place_ids r) results [] = Inr ids"
    for r city bairros results ids
  proof -
    from h have sb: "search_bairros env2 bairros [] = Inr results"
      and np: "new_place_ids (processed_place_ids r) results [] = Inr ids" by simp_all
    show ?thesis
      using new_place_ids_keys [OF np] new_place_ids_distinct [OF np]
        iterates_set [OF assms(2), of ids] collect_city_tasks [OF assms(2) sb np]
        collect_city_skip [OF sb np]
      by simp
  qed
  show ?thesis
    unfolding Let_def r1_def [symmetric] file2_def [symmetric] r2_def [symmetric]
    using a b c d e by blast
qed

lemma batch_with_missing_result:
  assumes it: "iterates_each_once env"
    and nr: "raised r = None"
    and sb: "search_bairros env bairros [] = Inr results"
    and np: "new_place_ids (processed_place_ids r) results [] = Inr ids"
    and pid: "place_id \<in> set ids"
    and lacks: "py_in (str ''result'') (details_response env place_id) = Inr False"
    and ok: "\<forall>sib\<in>set ids. \<not> raises (process_pharmacy env sib city)"
  shows "process_pharmacy env place_id city = Inr None \<and>
         set ids \<subseteq> set (detail_tasks (collect_city env r (city, bairros))) \<and>
         raised (collect_city env r (city, bairros)) = None \<and>
         (\<forall>k. key_of place_id = Some k \<longrightarrow>
            k \<notin> processed_place_ids (collect_city env r (city, bairros))) \<and>
         (\<forall>c\<in>set (companies_of (collect_city env r (city, bairros)) city).
            c \<in> set (companies_of r city) \<or> key_of (PlaceID c) \<noteq> key_of place_id) \<and>
         (\<forall>sib\<in>set ids. \<forall>c. process_pharmacy env sib city = Inr (Some c) \<longrightarrow>
            c \<in> set (companies_of (collect_city env r (city, bairros)) city) \<and>
            (\<exists>k. key_of sib = Some k \<and>
                 k \<in> processed_place_ids (collect_city env r (city, bairros))))"
proof -
  let ?r' = "collect_city env r (city, bairros)"
  let ?batch = "set_iter env ids"
  have none: "process_pharmacy env place_id city = Inr None"
    using lacks by (simp add: process_pharmacy_def get_company_details_def then_do_def)
  have batch: "set ?batch = set ids" using it by (rule iterates_set)
  have ne: "ids \<noteq> []" using pid by auto
  have "\<forall>r\<in>set (map (\<lambda>pid. process_pharmacy env pid city) ?batch). \<not> raises r"
    using ok batch by auto
  then obtain cds where g: "gather (map (\<lambda>pid. process_pharmacy env pid city) ?batch) = Inr cds"
    using gather_no_raise by blast
  then have m: "map (\<lambda>pid. process_pharmacy env pid city) ?batch = map Inr cds"
    by (rule gather_Inr)
  have hashable: "\<forall>c. Some c \<in> set cds \<longrightarrow> key_of (PlaceID c) \<noteq> None"
    using batch_companies_hashable [OF it np m] by blast
  have raised2: "raised (add_companies city cds (r\<lparr>detail_tasks := detail_tasks r @ ?batch\<rparr>)) = None"
    using add_companies_hashable [OF hashable, of city "r\<lparr>detail_tasks := detail_tasks r @ ?batch\<rparr>"] nr
    by simp
  have r': "?r' = save_processed_place_ids
                    (add_companies city cds (r\<lparr>detail_tasks := detail_tasks r @ ?batch\<rparr>))"
    using sb np ne g raised2 by (simp add: collect_city_def Let_def)
  note e = enriched_step [OF it np m r']
  have members: "Some c \<in> set cds \<longleftrightarrow> (\<exists>sib\<in>set ids. process_pharmacy env sib city = Inr (Some c))"
    for c
  proof -
    have "Some c \<in> set cds \<longleftrightarrow> Inr (Some c) \<in> set (map Inr cds :: (py_error + pharmacy option) list)"
      by auto
    also have "\<dots> \<longleftrightarrow> (\<exists>sib\<in>set ?batch. process_pharmacy env sib city = Inr (Some c))"
      unfolding m [symmetric] by (auto simp: image_iff) metis
    finally show ?thesis using batch by simp
  qed
  have fresh: "\<exists>k. key_of v = Some k \<and> k \<notin> processed_place_ids r" if "v \<in> set ids" for v
    using batch_fresh [OF it np] that batch by blast
  have dist: "distinct (map key_of ids)"
    using np by (rule new_place_ids_distinct) simp
  have inj: "v = w" if "v \<in> set ids" "w \<in> set ids" "key_of v = key_of w" for v w
    using dist that by (meson distinct_map inj_onD)
  have 2: "set ids \<subseteq> set (detail_tasks ?r')"
    using e(2) batch by simp
  have 3: "raised ?r' = None" using e(1) nr by simp
  have 4: "k \<notin> processed_place_ids ?r'" if k: "key_of place_id = Some k" for k
  proof
    assume "k \<in> processed_place_ids ?r'"
    then have "k \<in> processed_place_ids r \<or> (\<exists>c. Some c \<in> set cds \<and> key_of (PlaceID c) = Some k)"
      using e(4) by auto
    then show False
    proof
      assume "k \<in> processed_place_ids r"
      with fresh [OF pid] k show False by simp
    next
      assume "\<exists>c. Some c \<in> set cds \<and> key_of (PlaceID c) = Some k"
      then obtain c sib where c: "key_of (PlaceID c) = Some k" and
        sib: "sib \<in> set ids" "process_pharmacy env sib city = Inr (Some c)"
        using members by blast
      then have "PlaceID c = sib" by (simp add: process_pharmacy_PlaceID)
      with c k sib(1) pid have "sib = place_id" by (intro inj) simp_all
      with sib(2) none show False by simp
    qed
  qed
  have 5: "c \<in> set (companies_of r city) \<or> key_of (PlaceID c) \<noteq> key_of place_id"
    if c: "c \<in> set (companies_of ?r' city)" for c
  proof (cases "c \<in> set (companies_of r city)")
    case True
    then show ?thesis by simp
  next
    case False
    with c e(5) [of city] have "Some c \<in> set cds" by (auto simp: set_map_filter_id)
    then obtain sib where sib: "sib \<in> set ids" "process_pharmacy env sib city = Inr (Some c)"
      using members by blast
    then have eq: "PlaceID c = sib" by (simp add: process_pharmacy_PlaceID)
    have "key_of sib \<noteq> key_of place_id"
    proof
      assume "key_of sib = key_of place_id"
      with sib(1) pid have "sib = place_id" by (intro inj)
      with sib(2) none show False by simp
    qed
    with eq show ?thesis by simp
  qed
  have 6: "c \<in> set (companies_of ?r' city) \<and> (\<exists>k. key_of sib = Some k \<and> k \<in> processed_place_ids ?r')"
    if sib: "sib \<in> set ids" and c: "process_pharmacy env sib city = Inr (Some c)" for sib c
  proof -
    have in_cds: "Some c \<in> set cds" using members sib c by blast
    have eq: "PlaceID c = sib" using c by (rule process_pharmacy_PlaceID)
    obtain k where k: "key_of sib = Some k" using fresh [OF sib] by blast
    have "c \<in> set (companies_of ?r' city)"
      using e(5) [of city] in_cds by (simp add: set_map_filter_id)
    moreover have "k \<in> processed_place_ids ?r'"
      using e(4) in_cds eq k by auto
    ultimately show ?thesis using k by simp
  qed
  show ?thesis using none 2 3 4 5 6 by blast
qed

lemma example_fetch_search:
  "map_of params (str ''place_id'') = None \<Longrightarrow> fetch example_env url params = example_search"
  by (rule fetch_response_first) (simp add: example_env_def example_http_get_def)

lemma example_search_keyword:
  "search_keyword example_env bairro keyword = Inr example_places"
  by (simp add: search_keyword_def example_fetch_search example_search_def then_do_def)

lemma example_search_bairro:
  "search_pharmacies_by_bairro example_env bairro =
     Inr (example_places @ example_places @ example_places @ example_places)"
  by (simp add: search_pharmacies_by_bairro_def KEYWORDS_def example_search_keyword)

lemma example_search_bairros:
  "search_bairros example_env [bairro] [] =
     Inr (example_places @ example_places @ example_places @ example_places)"
  by (simp add: example_search_bairro)

lemma example_new_place_ids_empty:
  "new_place_ids {} (example_places @ example_places @ example_places @ example_places) [] =
     Inr [JStr (str ''p1''), JStr (str ''p2''), JStr (str ''p3'')]"
  by (simp add: example_places_def set_add_def)

lemma example_new_place_ids_seen:
  "new_place_ids example_ids (example_places @ example_places @ example_places @ example_places) [] =
     Inr [JStr (str ''p2'')]"
  by (simp add: example_places_def set_add_def example_ids_def)

lemma example_iterates: "iterates_each_once example_env"
  by (simp add: iterates_each_once_def example_env_def)

lemma example_set_iter [simp]: "set_iter example_env xs = rev xs"
  by (simp add: example_env_def)

lemma example_PlaceID [simp]:
  "PlaceID example_record_p1 = JStr (str ''p1'')" "PlaceID example_record_p3 = JStr (str ''p3'')"
  by (simp_all add: example_record_p1_def example_record_p3_def)

lemma example_first_city:
  "collect_city example_env (start None) (str ''Campinas'', [str ''Sousas'']) = example_first"
  apply (simp add: collect_city_def example_search_bairro start_def load_processed_place_ids_def
      example_new_place_ids_empty example_process_p1 example_process_p2 example_process_p3
      save_processed_place_ids_def example_first_def example_ids_def Let_def)
  done

lemma example_seen_city:
  "processed_place_ids r = example_ids \<Longrightarrow> raised r = None \<Longrightarrow>
   collect_city example_env r (city, [bairro]) =
     r\<lparr>detail_tasks := detail_tasks r @ [JStr (str ''p2'')], saved := saved r @ [example_ids]\<rparr>"
  by (simp add: collect_city_def example_search_bairro example_new_place_ids_seen
      example_process_p2 save_processed_place_ids_def)

lemma example_run: "collect_over example_env example_cities None = example_second"
  by (simp add: collect_over_def example_cities_def example_first_city Let_def)
     (simp add: example_first_def example_seen_city example_second_def)

lemma example_run_again: "collect_over example_env example_cities (Some example_ids) = example_rerun"
  by (simp add: collect_over_def example_cities_def Let_def start_def load_processed_place_ids_def
      example_seen_city example_rerun_def)

lemma example_file_after: "file_after None example_second = Some example_ids"
  by (simp add: file_after_def example_second_def)

lemma example_key_p2 [simp]: "key_of (JStr (str ''p2'')) = Some (KStr (str ''p2''))"
  by (simp add: key_of_def)

theorem processed_ids_only_grow_witness:
  "saved (collect_over example_env example_cities None) = [example_ids, example_ids] \<and>
   load_processed_place_ids None \<subseteq> saved (collect_over example_env example_cities None) ! 0 \<and>
   saved (collect_over example_env example_cities None) ! 0 \<subseteq>
     saved (collect_over example_env example_cities None) ! 1 \<and>
   processed_place_ids (start None) \<subseteq>
     processed_place_ids (collect_city example_env (start None) (str ''Campinas'', [str ''Sousas'']))"
proof -
  have len: "(0::nat) \<le> 1 \<and> 1 < length (saved (collect_over example_env example_cities None))"
    by (simp add: example_run example_second_def)
  from processed_ids_only_grow
    [of "start None" example_env "(str ''Campinas'', [str ''Sousas''])" example_cities None] len
  have "load_processed_place_ids None \<subseteq> saved (collect_over example_env example_cities None) ! 0 \<and>
        saved (collect_over example_env example_cities None) ! 0 \<subseteq>
          saved (collect_over example_env example_cities None) ! 1 \<and>
        processed_place_ids (start None) \<subseteq>
          processed_place_ids (collect_city example_env (start None) (str ''Campinas'', [str ''Sousas'']))"
    by blast
  then show ?thesis by (simp add: example_run example_second_def)
qed

theorem rerun_skips_processed_witness:
  "iterates_each_once example_env \<and>
   collect_over example_env example_cities None = example_second \<and>
   file_after None example_second = Some example_ids \<and>
   collect_over example_env example_cities (Some example_ids) = example_rerun \<and>
   processed_place_ids example_second = example_ids \<and>
   detail_tasks example_rerun = [JStr (str ''p2''), JStr (str ''p2'')] \<and>
   KStr (str ''p2'') \<notin> example_ids \<and>
   all_companies example_rerun = []"
proof -
  from rerun_skips_processed [OF example_iterates example_iterates, of example_cities None example_cities]
  have "\<forall>pid\<in>set (detail_tasks example_rerun).
          \<exists>k. key_of pid = Some k \<and> k \<notin> processed_place_ids example_second"
    by (simp add: Let_def example_run example_file_after example_run_again)
  then have "KStr (str ''p2'') \<notin> processed_place_ids example_second"
    by (simp add: example_rerun_def)
  then show ?thesis
    by (simp add: example_iterates example_run example_file_after example_run_again)
       (simp add: example_second_def example_rerun_def)
qed

section \<open>Enrichment on well-typed answers\<close>

lemma join_strs_ok: "list_all is_str xs \<Longrightarrow> \<exists>r. join_strs sep xs = Inr r"
proof (induction sep xs rule: join_strs.induct)
  case (3 sep s v vs)
  then show ?case by (auto split: sum.splits)
qed auto

lemma item_links_ok:
  "list_all (\<lambda>item. case item of JDict i \<Rightarrow> map_of i (str ''link'') \<noteq> None | _ \<Rightarrow> False) items \<Longrightarrow>
   \<exists>links. item_links items = Inr links"
proof (induction items)
  case Nil
  then show ?case by simp
next
  case (Cons item items)
  then obtain i v where "item = JDict i" "map_of i (str ''link'') = Some v"
    by (cases item) auto
  with Cons show ?case by auto
qed

lemma social_links_ok:
  assumes "well_typed_links (fetch env GOOGLE_CUSTOM_SEARCH_URL params)"
  shows "\<exists>links.
           (let data = fetch env GOOGLE_CUSTOM_SEARCH_URL params
            in if \<not> truthy data then Inr []
               else then_do (py_in (str ''items'') data) (\<lambda>present.
                      if \<not> present then Inr []
                      else then_do (dict_get data (str ''items'') (JList [])) (\<lambda>items.
                           then_do (py_iter items) item_links))) = Inr links"
proof -
  obtain kvs where d: "fetch env GOOGLE_CUSTOM_SEARCH_URL params = JDict kvs"
    using assms by (cases "fetch env GOOGLE_CUSTOM_SEARCH_URL params") (simp_all add: well_typed_links_def)
  show ?thesis
  proof (cases "map_of kvs (str ''items'')")
    case None
    with d show ?thesis by (simp add: then_do_def Let_def)
  next
    case (Some v)
    with assms d obtain items where v: "v = JList items" and
      ok: "list_all (\<lambda>item. case item of JDict i \<Rightarrow> map_of i (str ''link'') \<noteq> None | _ \<Rightarrow> False) items"
      by (cases v) (simp_all add: well_typed_links_def absent_or_def)
    from item_links_ok [OF ok] obtain links where "item_links items = Inr links" by blast
    with d Some v show ?thesis by (simp add: then_do_def Let_def)
  qed
qed

lemma get_social_media_links_ok:
  assumes "upstream_well_typed env" and "is_str company_name"
  shows "\<not> raises (get_social_media_links env company_name city)"
proof -
  obtain s where s: "company_name = JStr s" using assms(2) by (cases company_name) simp_all
  have "\<exists>clean. normalize_name env (JStr s) = Inr clean"
    by (cases "s = []") (simp_all add: normalize_name_def)
  then obtain clean where n: "normalize_name env company_name = Inr clean"
    unfolding s by blast
  show ?thesis
  proof (cases "CUSTOM_SEARCH_ENGINE_ID env")
    case None
    then show ?thesis by (simp add: get_social_media_links_def raises_def)
  next
    case (Some cx)
    let ?params = "[(str ''key'', JStr (GOOGLE_API_KEY env)), (str ''cx'', JStr cx),
                    (str ''q'', JStr ([34] @ clean @ [34, 32] @ city @
                                      str '' site:facebook.com OR site:instagram.com'')),
                    (str ''num'', JInt 5)]"
    have "well_typed_links (fetch env GOOGLE_CUSTOM_SEARCH_URL ?params)"
      using assms(1) by (simp add: upstream_well_typed_def)
    from social_links_ok [OF this] obtain links where
      "(let data = fetch env GOOGLE_CUSTOM_SEARCH_URL ?params
            in if \<not> truthy data then Inr []
               else then_do (py_in (str ''items'') data) (\<lambda>present.
                      if \<not> present then Inr []
                      else then_do (dict_get data (str ''items'') (JList [])) (\<lambda>items.
                           then_do (py_iter items) item_links))) = Inr links"
      by blast
    with Some n show ?thesis
      by (simp add: get_social_media_links_def raises_def then_do_def Let_def)
  qed
qed

lemma address_ok:
  assumes "absent_or is_str rk (str ''formatted_address'')"
  shows "\<exists>s ac. dict_get (JDict rk) (str ''formatted_address'') (JStr []) = Inr (JStr s) \<and>
                parse_address (JStr s) = Inr ac"
proof (cases "map_of rk (str ''formatted_address'')")
  case None
  then show ?thesis by (simp add: parse_address_def)
next
  case (Some v)
  with assms obtain s where "v = JStr s" by (cases v) (simp_all add: absent_or_def)
  with Some show ?thesis by (simp add: parse_address_def)
qed

lemma name_ok:
  assumes "absent_or is_str rk (str ''name'')"
  shows "\<exists>name. dict_get (JDict rk) (str ''name'') (JStr (str ''N/A'')) = Inr name \<and> is_str name"
  using assms by (cases "map_of rk (str ''name'')") (simp_all add: absent_or_def)

lemma types_ok:
  assumes "absent_or (\<lambda>v. case v of JList xs \<Rightarrow> list_all is_str xs | _ \<Rightarrow> False) rk (str ''types'')"
  shows "\<exists>types joined. dict_get (JDict rk) (str ''types'') (JList []) = Inr types \<and>
                       types_column types = Inr joined"
proof (cases "map_of rk (str ''types'')")
  case None
  then show ?thesis by (simp add: types_column_def then_do_def)
next
  case (Some v)
  with assms obtain xs where v: "v = JList xs" and xs: "list_all is_str xs"
    by (cases v) (simp_all add: absent_or_def)
  from join_strs_ok [OF xs] obtain r where "join_strs (str '', '') xs = Inr r" by blast
  with Some v show ?thesis by (simp add: types_column_def then_do_def)
qed

lemma location_ok:
  assumes "absent_or (\<lambda>v. case v of JDict g \<Rightarrow> absent_or is_dict g (str ''location'') | _ \<Rightarrow> False)
             rk (str ''geometry'')"
  shows "\<exists>v. location_field (JDict rk) k = Inr v"
proof (cases "map_of rk (str ''geometry'')")
  case None
  then show ?thesis by (simp add: location_field_def then_do_def)
next
  case (Some g)
  with assms obtain gk where g: "g = JDict gk" and l: "absent_or is_dict gk (str ''location'')"
    by (cases g) (simp_all add: absent_or_def)
  show ?thesis
  proof (cases "map_of gk (str ''location'')")
    case None
    with Some g show ?thesis by (simp add: location_field_def then_do_def)
  next
    case loc: (Some l')
    with l obtain lk where "l' = JDict lk" by (cases l') (simp_all add: absent_or_def)
    with Some g loc show ?thesis by (simp add: location_field_def then_do_def)
  qed
qed

lemma process_pharmacy_ok:
  assumes wt: "upstream_well_typed env"
  shows "\<not> raises (process_pharmacy env place_id city)"
proof -
  have "well_typed_details (details_response env place_id)"
    using wt by (simp add: upstream_well_typed_def details_response_def)
  then obtain kvs where data: "details_response env place_id = JDict kvs"
    and res: "absent_or well_typed_result kvs (str ''result'')"
    by (cases "details_response env place_id") (simp_all add: well_typed_details_def)
  show ?thesis
  proof (cases "map_of kvs (str ''result'')")
    case None
    with data show ?thesis
      by (simp add: process_pharmacy_def get_company_details_def then_do_def raises_def)
  next
    case (Some result)
    with res have "well_typed_result result" by (simp add: absent_or_def)
    then obtain rk where result: "result = JDict rk"
      and n: "absent_or is_str rk (str ''name'')"
      and a: "absent_or is_str rk (str ''formatted_address'')"
      and t: "absent_or (\<lambda>v. case v of JList xs \<Rightarrow> list_all is_str xs | _ \<Rightarrow> False) rk (str ''types'')"
      and g: "absent_or (\<lambda>v. case v of JDict g \<Rightarrow> absent_or is_dict g (str ''location'') | _ \<Rightarrow> False)
                rk (str ''geometry'')"
      by (cases result) (simp_all add: well_typed_result_def)
    have details: "get_company_details env place_id = Inr (JDict rk)"
      using data Some result by (simp add: get_company_details_def then_do_def)
    from name_ok [OF n] obtain name where
      name: "dict_get (JDict rk) (str ''name'') (JStr (str ''N/A'')) = Inr name" "is_str name"
      by blast
    from get_social_media_links_ok [OF wt name(2), of city] obtain links where
      links: "get_social_media_links env name city = Inr links"
      by (cases "get_social_media_links env name city") (simp_all add: raises_def)
    from address_ok [OF a] obtain s ac where
      addr: "dict_get (JDict rk) (str ''formatted_address'') (JStr []) = Inr (JStr s)"
        "parse_address (JStr s) = Inr ac"
      by blast
    from types_ok [OF t] obtain types joined where
      types: "dict_get (JDict rk) (str ''types'') (JList []) = Inr types"
        "types_column types = Inr joined"
      by blast
    from location_ok [OF g] obtain lat where lat: "location_field (JDict rk) (str ''lat'') = Inr lat"
      by blast
    from location_ok [OF g] obtain lng where lng: "location_field (JDict rk) (str ''lng'') = Inr lng"
      by blast
    show ?thesis
      unfolding process_pharmacy_def details
      using name(1) links addr types lat lng
      by (simp add: then_do_def raises_def)
  qed
qed


lemma example_fetch:
  "fetch example_env url params =
     (case map_of params (str ''place_id'') of
        None \<Rightarrow> example_search
      | Some place_id \<Rightarrow> example_details place_id)"
  by (rule fetch_response_first)
     (simp add: example_env_def example_http_get_def split: option.splits)

lemma example_well_typed: "upstream_well_typed example_env"
  by (simp add: upstream_well_typed_def example_fetch well_typed_details_def well_typed_links_def
      example_search_def example_details_def absent_or_def well_typed_result_def
      split: option.splits)


section \<open>Properties of the persistence sink\<close>

lemma with_company_size_Inr:
  "with_company_size df = Inr sized \<Longrightarrow>
   map fst sized = df \<and> (\<forall>ps\<in>set sized. classify_company_size (UserRatingsTotal (fst ps)) = Inr (snd ps))"
  by (induction df arbitrary: sized) (auto split: sum.splits)

lemma drop_duplicates_subset: "drop_duplicates seen ps = Inr df \<Longrightarrow> set df \<subseteq> set ps"
proof (induction seen ps arbitrary: df rule: drop_duplicates.induct)
  case (1 seen)
  then show ?case by simp
next
  case (2 seen p ps)
  from "2.prems" obtain n a where n: "hash_key (Name p) = Inr n" and a: "hash_key (Address p) = Inr a"
    by (auto split: sum.splits)
  show ?case
  proof (cases "(n, a) \<in> set seen")
    case True
    with "2.prems" n a have "drop_duplicates seen ps = Inr df" by simp
    from "2.IH"(1) [OF n a True this] show ?thesis by auto
  next
    case False
    with "2.prems" n a obtain kept where k: "drop_duplicates ((n, a) # seen) ps = Inr kept"
      and df: "df = p # kept"
      by (auto split: sum.splits)
    from "2.IH"(2) [OF n a False k] df show ?thesis by auto
  qed
qed


lemma example_city_rows:
  "city_rows example_env [example_record_p3, example_record_p1] = Inr [example_row]"
  by (simp add: city_rows_def then_do_def example_record_p1_def example_record_p3_def
      classify_company_size_def dropna_def coerce_coordinates_def to_numeric_def example_row_def)


section \<open>Properties of name normalisation\<close>

lemma set_collapse_spaces:
  "set (collapse_spaces t) \<subseteq> insert 32 {c \<in> set t. \<not> space_char c}"
proof (induction t rule: collapse_spaces.induct)
  case 1
  then show ?case by simp
next
  case (2 c cs)
  show ?case
  proof (cases "space_char c")
    case True
    have "set (dropWhile space_char cs) \<subseteq> set cs" by (rule set_dropWhileD [THEN subsetI])
    with 2(1) [OF True] True show ?thesis by auto
  next
    case False
    with 2(2) [OF False] show ?thesis by auto
  qed
qed

lemma hd_collapse_spaces:
  "collapse_spaces t \<noteq> [] \<Longrightarrow> hd (collapse_spaces t) = 32 \<Longrightarrow> t \<noteq> [] \<and> space_char (hd t)"
  by (cases t) (auto simp: space_char_def split: if_splits)

lemma single_spaced_Cons:
  "single_spaced (a # t) \<longleftrightarrow> (t = [] \<or> (\<not> (a = 32 \<and> hd t = 32) \<and> single_spaced t))"
  by (cases t) auto

lemma single_spaced_collapse: "single_spaced (collapse_spaces t)"
proof (induction t rule: collapse_spaces.induct)
  case 1
  then show ?case by simp
next
  case (2 c cs)
  show ?case
  proof (cases "space_char c")
    case True
    let ?d = "dropWhile space_char cs"
    have "hd (collapse_spaces ?d) \<noteq> 32" if "collapse_spaces ?d \<noteq> []"
    proof
      assume "hd (collapse_spaces ?d) = 32"
      with that have "?d \<noteq> [] \<and> space_char (hd ?d)" by (rule hd_collapse_spaces)
      then show False using hd_dropWhile [of space_char cs] by simp
    qed
    with 2(1) [OF True] True show ?thesis by (auto simp: single_spaced_Cons)
  next
    case False
    then have "c \<noteq> 32" by (auto simp: space_char_def)
    with 2(2) [OF False] False show ?thesis by (simp add: single_spaced_Cons)
  qed
qed

lemma single_spaced_append: "single_spaced (a @ b) \<Longrightarrow> single_spaced a \<and> single_spaced b"
proof (induction a rule: single_spaced.induct)
  case 1
  then show ?case by simp
next
  case (2 c)
  then show ?case by (cases b) auto
next
  case (3 a b' cs)
  then show ?case by auto
qed

lemma isspace_32: "isspace 32"
  by (simp add: isspace_def)

lemma normalize_name_shape:
  "\<exists>out. normalize_name env (JStr s) = Inr out \<and>
         (\<forall>c\<in>set out. c < 128 \<and> (word_char c \<or> c = 32)) \<and>
         single_spaced out \<and>
         (out \<noteq> [] \<longrightarrow> hd out \<noteq> 32 \<and> last out \<noteq> 32)"
proof (cases "s = []")
  case True
  then show ?thesis by (simp add: normalize_name_def)
next
  case False
  let ?p = "strip_punctuation (remove_suffixes None (ascii_ignore (nfkd env s)))"
  let ?c = "collapse_spaces ?p"
  let ?out = "strip ?c"
  have out: "normalize_name env (JStr s) = Inr ?out"
    using False by (simp add: normalize_name_def)
  from strip_trimmed [of ?c] obtain l r where
    c: "?c = l @ ?out @ r" and
    ends: "?out \<noteq> [] \<longrightarrow> \<not> isspace (hd ?out) \<and> \<not> isspace (last ?out)"
    by blast
  have chars_p: "\<forall>c\<in>set ?p. word_char c \<or> space_char c"
    by (simp add: strip_punctuation_def)
  have "set ?out \<subseteq> set ?c" using c by (metis Un_upper1 Un_upper2 set_append subset_trans)
  also have "\<dots> \<subseteq> insert 32 {c \<in> set ?p. \<not> space_char c}" by (rule set_collapse_spaces)
  finally have chars: "\<forall>c\<in>set ?out. word_char c \<or> c = 32"
    using chars_p by auto
  have ascii: "c < 128" if "word_char c \<or> c = 32" for c
    using that by (auto simp: word_char_def)
  have "single_spaced (l @ ?out @ r)" using single_spaced_collapse [of ?p] c by simp
  then have ss: "single_spaced ?out" using single_spaced_append by blast
  have e: "?out \<noteq> [] \<longrightarrow> hd ?out \<noteq> 32 \<and> last ?out \<noteq> 32"
    using ends isspace_32 by auto
  show ?thesis
    using out chars ascii ss e by (intro exI [of _ ?out]) blast
qed

lemma farmacia_ascii:
  "strip (collapse_spaces (strip_punctuation
     (remove_suffixes None (ascii_ignore farmacia_sao_joao_nfkd)))) = str ''Farmacia Sao Joao''"
  by code_simp

lemma farmacia_example:
  "nfkd example_env farmacia_sao_joao = farmacia_sao_joao_nfkd"
  by code_simp

lemma underscore_example:
  "normalize_name example_env (JStr (str ''a_b'')) = Inr (str ''a_b'')"
  by code_simp

lemma sa_example:
  "normalize_name example_env (JStr (str ''Drogaria S.A.'')) = Inr (str ''Drogaria SA'')"
  by code_simp

lemma lower_word_char: "lower a = lower b \<Longrightarrow> word_char a = word_char b"
  by (auto simp: lower_def word_char_def split: if_splits)

lemma lower_not_space: "lower a = 32 \<longleftrightarrow> a = 32"
  by (auto simp: lower_def)

lemma suffix_chars: "t \<in> set legal_suffixes \<Longrightarrow> t \<noteq> [] \<and> 32 \<notin> lower ` set t \<and> word_char (hd t)"
  by (auto simp: legal_suffixes_def str_def lower_def word_char_def)

lemma nth_map_take: "i < n \<Longrightarrow> n \<le> length xs \<Longrightarrow> map f (take n xs) ! i = f (xs ! i)"
  by simp

lemma match_alternatives_None:
  "(\<forall>t\<in>set ts. \<not> alternative_matches t s) \<Longrightarrow> match_alternatives ts s = None"
  by (induction ts) auto

lemma match_alternatives_Some:
  "match_alternatives ts s = Some n \<Longrightarrow> \<exists>t\<in>set ts. alternative_matches t s \<and> n = length t"
  by (induction ts) (auto split: if_splits)

lemma match_alternatives_exists:
  "t \<in> set ts \<Longrightarrow> alternative_matches t s \<Longrightarrow> \<exists>n. match_alternatives ts s = Some n"
  by (induction ts) auto

text \<open>A text that does not begin with a letter of an alternative matches none.\<close>

lemma no_match_at_space:
  "match_alternatives legal_suffixes (32 # s) = None"
proof (rule match_alternatives_None, rule ballI)
  fix t assume t: "t \<in> set legal_suffixes"
  obtain a u where tu: "t = a # u" using suffix_chars [OF t] by (cases t) auto
  have "lower a \<noteq> 32" using suffix_chars [OF t] tu by auto
  then show "\<not> alternative_matches t (32 # s)"
    unfolding tu by (auto simp: alternative_matches_def lower_def)
qed

lemma no_match_at_dot:
  "match_alternatives legal_suffixes (46 # s) = None"
proof (rule match_alternatives_None, rule ballI)
  fix t assume t: "t \<in> set legal_suffixes"
  obtain a u where tu: "t = a # u" using suffix_chars [OF t] by (cases t) auto
  have "word_char a" using suffix_chars [OF t] tu by simp
  moreover have "\<not> word_char 46" by (simp add: word_char_def)
  ultimately have "lower 46 \<noteq> lower a" using lower_word_char by blast
  then show "\<not> alternative_matches t (46 # s)"
    unfolding tu by (simp add: alternative_matches_def)
qed

lemma next_char_gap: "gap r \<Longrightarrow> next_char r = None \<or> next_char r = Some 32"
  by (cases r) (auto simp: gap_def next_char_def)

lemma not_word_32: "\<not> word_char 32"
  by (simp add: word_char_def)

text \<open>What an alternative that matches a plain word followed by a gap looks like.\<close>

lemma matches_plain_word:
  assumes t: "t \<in> set legal_suffixes" and w: "plain_word w" and r: "gap r"
    and m: "alternative_matches t (w @ r)"
  shows "map lower t = map lower w"
proof -
  from m have len: "length t \<le> length (w @ r)"
    and eq: "map lower (take (length t) (w @ r)) = map lower t"
    and b: "word_boundary (Some (last t)) (next_char (drop (length t) (w @ r)))"
    by (simp_all add: alternative_matches_def)
  have tne: "t \<noteq> []" using suffix_chars [OF t] by simp
  have le: "length t \<le> length w"
  proof (rule ccontr)
    assume "\<not> length t \<le> length w"
    then have lt: "length w < length t" by simp
    with len have rne: "r \<noteq> []" by auto
    with r have hr: "hd r = 32" by (simp add: gap_def)
    have "map lower (take (length t) (w @ r)) ! length w = lower ((w @ r) ! length w)"
      using lt len by (rule nth_map_take)
    also have "(w @ r) ! length w = 32" using rne hr by (simp add: nth_append hd_conv_nth)
    finally have "map lower t ! length w = lower 32" using eq by simp
    then have "lower (t ! length w) = 32" using lt by (simp add: lower_def)
    moreover have "t ! length w \<in> set t" using lt by simp
    ultimately have "32 \<in> lower ` set t" by force
    then show False using suffix_chars [OF t] by simp
  qed
  then have eqw: "map lower (take (length t) w) = map lower t" using eq by simp
  have "length t = length w"
  proof (rule ccontr)
    assume "length t \<noteq> length w"
    with le have lt: "length t < length w" by simp
    have "drop (length t) (w @ r) = w ! length t # drop (Suc (length t)) w @ r"
      using lt by (simp add: Cons_nth_drop_Suc)
    then have nx: "next_char (drop (length t) (w @ r)) = Some (w ! length t)"
      by (simp add: next_char_def)
    have wc: "word_char (w ! length t)" using w lt by (simp add: plain_word_def list_all_length)
    have "lower (last t) = lower (w ! (length t - 1))"
    proof -
      have "map lower t ! (length t - 1) = map lower (take (length t) w) ! (length t - 1)"
        using eqw by simp
      then show ?thesis using tne lt by (simp add: last_conv_nth)
    qed
    moreover have "word_char (w ! (length t - 1))"
      using w lt by (simp add: plain_word_def list_all_length)
    ultimately have "word_char (last t)" using lower_word_char by blast
    with b nx wc show False by (simp add: word_boundary_def)
  qed
  with eqw show ?thesis by simp
qed

lemma plain_word_matches:
  assumes w: "plain_word w" and r: "gap r" and eq: "map lower t = map lower w"
  shows "alternative_matches t (w @ r)"
proof -
  have len: "length t = length w" using eq by (metis length_map)
  have wne: "w \<noteq> []" using w by (simp add: plain_word_def)
  then have tne: "t \<noteq> []" using len by auto
  have "lower (last t) = lower (last w)"
    using eq tne wne by (metis last_map)
  moreover have "word_char (last w)" using w wne by (simp add: plain_word_def list_all_iff)
  ultimately have "word_char (last t)" using lower_word_char by blast
  moreover have "next_char (drop (length t) (w @ r)) = next_char r" using len by simp
  ultimately show ?thesis
    using len eq next_char_gap [OF r] not_word_32
    by (auto simp: alternative_matches_def word_boundary_def)
qed

lemma match_plain_word:
  assumes w: "plain_word w" and r: "gap r" and p: "nonword prev"
  shows "match_suffix prev (w @ r) = (if is_legal_suffix w then Some (length w) else None)"
proof -
  have wne: "w \<noteq> []" and hw: "word_char (hd w)"
    using w by (auto simp: plain_word_def list_all_iff)
  have b: "word_boundary prev (next_char (w @ r))"
    using wne hw p by (cases w) (auto simp: word_boundary_def next_char_def nonword_def split: option.splits)
  then have ms: "match_suffix prev (w @ r) = match_alternatives legal_suffixes (w @ r)"
    by (simp add: match_suffix_def)
  show ?thesis
  proof (cases "is_legal_suffix w")
    case True
    then have "map lower w \<in> map lower ` set legal_suffixes"
      by (simp add: is_legal_suffix_def)
    then obtain t where t: "t \<in> set legal_suffixes" "map lower t = map lower w"
      by (metis imageE)
    from plain_word_matches [OF w r t(2)] t(1) obtain n where
      n: "match_alternatives legal_suffixes (w @ r) = Some n"
      using match_alternatives_exists by blast
    from match_alternatives_Some [OF n] obtain t' where
      "t' \<in> set legal_suffixes" "alternative_matches t' (w @ r)" "n = length t'" by blast
    with matches_plain_word [OF _ w r] have "n = length w" by (metis length_map)
    with n ms True show ?thesis by simp
  next
    case False
    have "\<not> alternative_matches t (w @ r)" if "t \<in> set legal_suffixes" for t
    proof
      assume "alternative_matches t (w @ r)"
      from matches_plain_word [OF that w r this]
      have "map lower w = map lower t" by simp
      with that have "map lower w \<in> set (map (map lower) legal_suffixes)" by simp
      with False show False by (simp add: is_legal_suffix_def)
    qed
    then have "match_alternatives legal_suffixes (w @ r) = None"
      by (intro match_alternatives_None) blast
    with ms False show ?thesis by simp
  qed
qed

lemma remove_inside_word:
  "word_char p \<Longrightarrow> list_all word_char u \<Longrightarrow>
   remove_suffixes (Some p) (u @ r) = u @ remove_suffixes (Some (last (p # u))) r"
proof (induction u arbitrary: p)
  case Nil
  then show ?case by simp
next
  case (Cons c u)
  then have "match_suffix (Some p) (c # u @ r) = None"
    by (simp add: match_suffix_def word_boundary_def next_char_def)
  then have "remove_suffixes (Some p) ((c # u) @ r) = c # remove_suffixes (Some c) (u @ r)"
    by simp
  with Cons show ?case by simp
qed

lemma remove_at_space:
  "remove_suffixes (Some p) (32 # s) = 32 # remove_suffixes (Some 32) s"
  by (simp add: match_suffix_def no_match_at_space)

lemma remove_match:
  assumes "match_suffix prev (w @ r) = Some (length w)" and "w \<noteq> []"
  shows "remove_suffixes prev (w @ r) = remove_suffixes (Some (last w)) r"
proof -
  obtain c u where w: "w = c # u" using assms(2) by (cases w) auto
  have "(c # u @ r) ! length u = last (c # u)"
    by (metis append_Cons length_Cons lessI nth_append last_conv_nth list.distinct(1)
        diff_Suc_1)
  with assms(1) show ?thesis unfolding w by simp
qed

lemma scan_plain_word:
  assumes w: "plain_word w" and r: "gap r" and p: "nonword prev"
  shows "remove_suffixes prev (w @ r) =
           (if is_legal_suffix w then [] else w) @ remove_suffixes (Some (last w)) r"
proof (cases "is_legal_suffix w")
  case True
  have "w \<noteq> []" using w by (simp add: plain_word_def)
  with match_plain_word [OF w r p] True show ?thesis by (simp add: remove_match)
next
  case False
  obtain c u where cu: "w = c # u" using w by (cases w) (auto simp: plain_word_def)
  have wc: "word_char c" "list_all word_char u" using w cu by (simp_all add: plain_word_def)
  have "match_suffix prev ((c # u) @ r) = None"
    using match_plain_word [OF w r p] False cu by simp
  then have "remove_suffixes prev ((c # u) @ r) = c # remove_suffixes (Some c) (u @ r)"
    by simp
  also have "\<dots> = c # u @ remove_suffixes (Some (last (c # u))) r"
    using wc by (simp add: remove_inside_word)
  finally show ?thesis using False cu by simp
qed

lemma low_tokens:
  "map lower (str ''Ltda.'') = [108, 116, 100, 97, 46]"
  "map lower (str ''Ltda'') = [108, 116, 100, 97]"
  "map lower (str ''EIRELI'') = [101, 105, 114, 101, 108, 105]"
  "map lower (str ''S/A'') = [115, 47, 97]"
  "map lower (str ''SA'') = [115, 97]"
  "map lower (str ''Limited'') = [108, 105, 109, 105, 116, 101, 100]"
  "map lower (str ''Ltd'') = [108, 116, 100]"
  by (simp_all add: str_def lower_def)

lemma len_tokens:
  "length (str ''Ltda.'') = 5" "length (str ''Ltda'') = 4" "length (str ''EIRELI'') = 6"
  "length (str ''S/A'') = 3" "length (str ''SA'') = 2" "length (str ''Limited'') = 7"
  "length (str ''Ltd'') = 3"
  by (simp_all add: str_def)

lemma last_tokens:
  "last (str ''Ltda.'') = 46" "last (str ''Ltda'') = 97" "last (str ''S/A'') = 65"
  by (simp_all add: str_def)

lemma lower_eq_letter:
  "lower a = 115 \<Longrightarrow> word_char a" "lower a = 97 \<Longrightarrow> word_char a" "lower a = 108 \<Longrightarrow> word_char a"
  "lower a = 116 \<Longrightarrow> word_char a" "lower a = 100 \<Longrightarrow> word_char a"
  "lower a = 47 \<Longrightarrow> a = 47" "lower a = 46 \<Longrightarrow> a = 46"
  by (auto simp: lower_def word_char_def split: if_splits)

lemma scan_s_slash_a:
  assumes w: "map lower w = map lower (str ''S/A'')" and r: "gap r" and p: "nonword prev"
  shows "remove_suffixes prev (w @ r) = remove_suffixes (Some (last w)) r"
proof -
  from w have "length w = 3" by (metis len_tokens(4) length_map)
  then obtain a b c where abc: "w = [a, b, c]"
    by (cases w; cases "tl w"; cases "tl (tl w)") auto
  from w have l: "lower a = 115" "lower b = 47" "lower c = 97"
    unfolding abc low_tokens by simp_all
  have wa: "word_char a" using l(1) by (rule lower_eq_letter)
  have nx: "next_char r = None \<or> next_char r = Some 32" using r by (rule next_char_gap)
  have b: "word_boundary prev (next_char (w @ r))"
    using wa p by (auto simp: abc word_boundary_def next_char_def nonword_def split: option.splits)
  have "match_alternatives legal_suffixes (w @ r) = Some 3"
    using l nx
    by (auto simp: abc legal_suffixes_def alternative_matches_def low_tokens len_tokens
        last_tokens word_boundary_def word_char_def)
  then have "match_suffix prev (w @ r) = Some (length w)"
    using b by (simp add: match_suffix_def abc)
  then show ?thesis by (rule remove_match) (simp add: abc)
qed

lemma scan_ltda_dot:
  assumes w: "map lower w = map lower (str ''Ltda.'')" and r: "gap r" and p: "nonword prev"
  shows "remove_suffixes prev (w @ r) = [46] @ remove_suffixes (Some 46) r"
proof -
  from w have "length w = 5" by (metis len_tokens(1) length_map)
  then obtain a b c d e where abc: "w = [a, b, c, d, e]"
    by (cases w; cases "tl w"; cases "tl (tl w)"; cases "tl (tl (tl w))";
        cases "tl (tl (tl (tl w)))") auto
  from w have l: "lower a = 108" "lower b = 116" "lower c = 100" "lower d = 97" "lower e = 46"
    unfolding abc low_tokens by simp_all
  have wa: "word_char a" using l(1) by (rule lower_eq_letter)
  have e: "e = 46" using l(5) by (rule lower_eq_letter)
  have nx: "next_char r = None \<or> next_char r = Some 32" using r by (rule next_char_gap)
  have b: "word_boundary prev (next_char (w @ r))"
    using wa p by (auto simp: abc word_boundary_def next_char_def nonword_def split: option.splits)
  have "match_alternatives legal_suffixes (w @ r) = Some 4"
    using l nx
    by (auto simp: abc e legal_suffixes_def alternative_matches_def low_tokens len_tokens
        last_tokens word_boundary_def word_char_def next_char_def)
  then have "match_suffix prev (w @ r) = Some 4"
    using b by (simp add: match_suffix_def)
  then have "remove_suffixes prev (w @ r) = remove_suffixes (Some d) (46 # r)"
    by (simp add: abc e)
  also have "\<dots> = 46 # remove_suffixes (Some 46) r"
    by (simp add: match_suffix_def no_match_at_dot)
  finally show ?thesis by simp
qed

lemma plain_of_lower:
  "map lower w = map lower t \<Longrightarrow> plain_word t \<Longrightarrow> plain_word w"
proof -
  assume eq: "map lower w = map lower t" and t: "plain_word t"
  have len: "length w = length t" using eq by (metis length_map)
  have "word_char (w ! i)" if "i < length w" for i
  proof -
    have "lower (w ! i) = lower (t ! i)"
      using eq that len by (metis nth_map)
    moreover have "word_char (t ! i)" using t that len by (simp add: plain_word_def list_all_length)
    ultimately show ?thesis using lower_word_char by blast
  qed
  then show ?thesis using t len by (auto simp: plain_word_def list_all_length)
qed

lemma plain_tokens:
  "plain_word (str ''Ltda'')" "plain_word (str ''EIRELI'')" "plain_word (str ''SA'')"
  "plain_word (str ''Limited'')" "plain_word (str ''Ltd'')"
  by (simp_all add: plain_word_def str_def word_char_def)

lemma legal_suffix_cases:
  assumes "is_legal_suffix w"
  shows "plain_word w \<or> map lower w = map lower (str ''Ltda.'') \<or>
         map lower w = map lower (str ''S/A'')"
proof -
  from assms have "map lower w \<in> map lower ` set legal_suffixes"
    by (simp add: is_legal_suffix_def)
  then consider "map lower w = map lower (str ''Ltda.'')" | "map lower w = map lower (str ''Ltda'')"
    | "map lower w = map lower (str ''EIRELI'')" | "map lower w = map lower (str ''S/A'')"
    | "map lower w = map lower (str ''SA'')" | "map lower w = map lower (str ''Limited'')"
    | "map lower w = map lower (str ''Ltd'')"
    by (auto simp: legal_suffixes_def)
  then show ?thesis
    using plain_of_lower plain_tokens by cases blast+
qed

lemma strip_punctuation_plain: "list_all word_char w \<Longrightarrow> strip_punctuation w = w"
  by (induction w) (simp_all add: strip_punctuation_def)

lemma strip_punctuation_append:
  "strip_punctuation (a @ b) = strip_punctuation a @ strip_punctuation b"
  by (simp add: strip_punctuation_def)

lemma strip_punctuation_space: "strip_punctuation (32 # s) = 32 # strip_punctuation s"
  by (simp add: strip_punctuation_def space_char_def)

lemma scan_word:
  assumes ok: "plain_word w \<or> is_legal_suffix w" and r: "gap r" and p: "nonword prev"
  shows "\<exists>x q. remove_suffixes prev (w @ r) = x @ remove_suffixes (Some q) r \<and>
               strip_punctuation x = (if is_legal_suffix w then [] else w)"
proof (cases "plain_word w")
  case True
  have "strip_punctuation (if is_legal_suffix w then [] else w) =
        (if is_legal_suffix w then [] else w)"
  proof (cases "is_legal_suffix w")
    case legal: True
    then show ?thesis by (simp add: strip_punctuation_def)
  next
    case False
    with True show ?thesis by (simp add: plain_word_def strip_punctuation_plain)
  qed
  with scan_plain_word [OF True r p] show ?thesis by blast
next
  case False
  with ok have legal: "is_legal_suffix w" by simp
  from legal_suffix_cases [OF legal] False
  consider "map lower w = map lower (str ''Ltda.'')" | "map lower w = map lower (str ''S/A'')"
    by blast
  then show ?thesis
  proof cases
    case 1
    have "strip_punctuation [46] = []"
      by (simp add: strip_punctuation_def word_char_def space_char_def)
    with scan_ltda_dot [OF 1 r p] legal show ?thesis by (metis (full_types))
  next
    case 2
    have "remove_suffixes prev (w @ r) = [] @ remove_suffixes (Some (last w)) r"
      using scan_s_slash_a [OF 2 r p] by simp
    moreover have "strip_punctuation [] = []" by (simp add: strip_punctuation_def)
    ultimately show ?thesis using legal by (metis (full_types))
  qed
qed

lemma scan_words:
  assumes "\<forall>w\<in>set ws. plain_word w \<or> is_legal_suffix w" and "nonword prev"
  shows "strip_punctuation (remove_suffixes prev (join_on 32 ws)) =
           join_on 32 (map (\<lambda>w. if is_legal_suffix w then [] else w) ws)"
  using assms
proof (induction "32::nat" ws arbitrary: prev rule: join_on.induct)
  case 1
  then show ?case by (simp add: strip_punctuation_def)
next
  case (2 w)
  then have ok: "plain_word w \<or> is_legal_suffix w" by simp
  from scan_word [OF ok _ "2.prems"(2), of "[]"] obtain x q where
    "remove_suffixes prev (w @ []) = x @ remove_suffixes (Some q) []"
    "strip_punctuation x = (if is_legal_suffix w then [] else w)"
    by (auto simp: gap_def)
  then show ?case by simp
next
  case (3 w v vs)
  then have ok: "plain_word w \<or> is_legal_suffix w" by simp
  let ?r = "32 # join_on 32 (v # vs)"
  from scan_word [OF ok _ "3.prems"(2), of ?r] obtain x q where
    x: "remove_suffixes prev (w @ ?r) = x @ remove_suffixes (Some q) ?r"
       "strip_punctuation x = (if is_legal_suffix w then [] else w)"
    by (auto simp: gap_def)
  have nw: "nonword (Some 32)" by (simp add: nonword_def word_char_def)
  have ih: "strip_punctuation (remove_suffixes (Some 32) (join_on 32 (v # vs))) =
              join_on 32 (map (\<lambda>w. if is_legal_suffix w then [] else w) (v # vs))"
    using "3.hyps" [OF _ nw] "3.prems"(1) by simp
  have "strip_punctuation (remove_suffixes prev (join_on 32 (w # v # vs))) =
        strip_punctuation x @ 32 # strip_punctuation (remove_suffixes (Some 32) (join_on 32 (v # vs)))"
    using x(1)
    by (simp add: remove_at_space strip_punctuation_append strip_punctuation_space
        del: remove_suffixes.simps)
  with x(2) ih show ?case by simp
qed

lemma word_not_space: "word_char c \<Longrightarrow> \<not> space_char c \<and> \<not> isspace c"
  by (auto simp: word_char_def space_char_def isspace_def)

lemma collapse_no_space:
  "\<forall>c\<in>set v. \<not> space_char c \<Longrightarrow> collapse_spaces (v @ t) = v @ collapse_spaces t"
  by (induction v) auto

lemma collapse_at_space:
  "collapse_spaces (32 # t) = 32 # collapse_spaces (dropWhile space_char t)"
  by (simp add: space_char_def)

lemma space_char_32: "space_char 32"
  by (simp add: space_char_def)

lemma dropWhile_join:
  assumes "\<forall>v\<in>set vs. \<forall>c\<in>set v. \<not> space_char c"
  shows "dropWhile space_char (join_on 32 vs) = join_on 32 (dropWhile (\<lambda>v. v = []) vs)"
  using assms
proof (induction "32::nat" vs rule: join_on.induct)
  case 1
  then show ?case by simp
next
  case (2 p)
  then show ?case by (cases p) auto
next
  case (3 p q ps)
  show ?case
  proof (cases "p = []")
    case True
    with 3 show ?thesis by (simp add: space_char_32)
  next
    case False
    then obtain c u where "p = c # u" by (cases p) auto
    with 3 show ?thesis by auto
  qed
qed

lemma filter_dropWhile_empty:
  "filter (\<lambda>v. v \<noteq> []) (dropWhile (\<lambda>v. v = []) vs) = filter (\<lambda>v. v \<noteq> []) vs"
  by (induction vs) auto

lemma collapse_join_from_word:
  assumes "\<forall>v\<in>set vs. \<forall>c\<in>set v. \<not> space_char c" and "vs = [] \<or> hd vs \<noteq> []"
  shows "\<exists>r. set r \<subseteq> {32} \<and>
             collapse_spaces (join_on 32 vs) = join_on 32 (filter (\<lambda>v. v \<noteq> []) vs) @ r"
  using assms
proof (induction vs rule: length_induct)
  case (1 vs)
  show ?case
  proof (cases vs)
    case Nil
    then show ?thesis by simp
  next
    case (Cons v vs')
    with 1(3) have vne: "v \<noteq> []" by simp
    have vfree: "\<forall>c\<in>set v. \<not> space_char c" using 1(2) Cons by simp
    show ?thesis
    proof (cases vs')
      case Nil
      with Cons vne vfree show ?thesis
        using collapse_no_space [of v "[]"] by simp
    next
      case (Cons w ws)
      let ?us = "dropWhile (\<lambda>v. v = []) vs'"
      have free': "\<forall>v\<in>set vs'. \<forall>c\<in>set v. \<not> space_char c"
        using 1(2) \<open>vs = v # vs'\<close> by simp
      have len: "length ?us < length vs"
        using \<open>vs = v # vs'\<close> length_dropWhile_le [of "\<lambda>v. v = []" vs'] by simp
      have free_us: "\<forall>v\<in>set ?us. \<forall>c\<in>set v. \<not> space_char c"
        using free' by (meson set_dropWhileD)
      have hd_us: "?us = [] \<or> hd ?us \<noteq> []"
        using hd_dropWhile [of "\<lambda>v. v = []" vs'] by blast
      from 1(1) len free_us hd_us obtain r where r: "set r \<subseteq> {32}"
        "collapse_spaces (join_on 32 ?us) = join_on 32 (filter (\<lambda>v. v \<noteq> []) ?us) @ r"
        by blast
      let ?F = "filter (\<lambda>v. v \<noteq> []) vs'"
      have c: "collapse_spaces (join_on 32 vs) = v @ 32 # join_on 32 ?F @ r"
      proof -
        have "join_on 32 vs = v @ 32 # join_on 32 vs'"
          using \<open>vs = v # vs'\<close> Cons by simp
        then have "collapse_spaces (join_on 32 vs) =
                   v @ 32 # collapse_spaces (dropWhile space_char (join_on 32 vs'))"
          using vfree by (simp add: collapse_no_space collapse_at_space del: collapse_spaces.simps)
        then show ?thesis
          using r(2) by (simp add: dropWhile_join [OF free'] filter_dropWhile_empty)
      qed
      show ?thesis
      proof (cases "?F = []")
        case True
        with c have "collapse_spaces (join_on 32 vs) =
                     join_on 32 (filter (\<lambda>v. v \<noteq> []) vs) @ (32 # r)"
          using \<open>vs = v # vs'\<close> vne by simp
        moreover have "set (32 # r) \<subseteq> {32}" using r(1) by simp
        ultimately show ?thesis by blast
      next
        case False
        then obtain f fs where "?F = f # fs" by (cases ?F) auto
        with c have "collapse_spaces (join_on 32 vs) =
                     join_on 32 (filter (\<lambda>v. v \<noteq> []) vs) @ r"
          using \<open>vs = v # vs'\<close> vne by simp
        with r(1) show ?thesis by blast
      qed
    qed
  qed
qed

lemma collapse_join:
  assumes "\<forall>v\<in>set vs. \<forall>c\<in>set v. \<not> space_char c"
  shows "\<exists>l r. set l \<subseteq> {32} \<and> set r \<subseteq> {32} \<and>
             collapse_spaces (join_on 32 vs) = l @ join_on 32 (filter (\<lambda>v. v \<noteq> []) vs) @ r"
proof (cases "vs = [] \<or> hd vs \<noteq> []")
  case True
  from collapse_join_from_word [OF assms True] obtain r where
    "set r \<subseteq> {32}"
    "collapse_spaces (join_on 32 vs) = [] @ join_on 32 (filter (\<lambda>v. v \<noteq> []) vs) @ r"
    by auto
  then show ?thesis by (metis empty_set empty_subsetI)
next
  case False
  then obtain vs' where vs: "vs = [] # vs'" by (cases vs) auto
  show ?thesis
  proof (cases vs')
    case Nil
    with vs show ?thesis by simp
  next
    case (Cons w ws)
    let ?us = "dropWhile (\<lambda>v. v = []) vs'"
    have free': "\<forall>v\<in>set vs'. \<forall>c\<in>set v. \<not> space_char c" using assms vs by simp
    have free_us: "\<forall>v\<in>set ?us. \<forall>c\<in>set v. \<not> space_char c"
      using free' by (meson set_dropWhileD)
    have hd_us: "?us = [] \<or> hd ?us \<noteq> []"
      using hd_dropWhile [of "\<lambda>v. v = []" vs'] by blast
    from collapse_join_from_word [OF free_us hd_us] obtain r where r: "set r \<subseteq> {32}"
      "collapse_spaces (join_on 32 ?us) = join_on 32 (filter (\<lambda>v. v \<noteq> []) ?us) @ r"
      by blast
    have "join_on 32 vs = 32 # join_on 32 vs'" using vs Cons by simp
    then have "collapse_spaces (join_on 32 vs) =
               32 # collapse_spaces (dropWhile space_char (join_on 32 vs'))"
      by (simp add: collapse_at_space del: collapse_spaces.simps)
    then have "collapse_spaces (join_on 32 vs) =
               [32] @ join_on 32 (filter (\<lambda>v. v \<noteq> []) vs) @ r"
      using r(2) vs by (simp add: dropWhile_join [OF free'] filter_dropWhile_empty)
    moreover have "set [32::nat] \<subseteq> {32}" by simp
    ultimately show ?thesis using r(1) by blast
  qed
qed

lemma strip_core:
  assumes l: "\<forall>c\<in>set l. isspace c" and r: "\<forall>c\<in>set r. isspace c"
    and core: "core = [] \<or> (\<not> isspace (hd core) \<and> \<not> isspace (last core))"
  shows "strip (l @ core @ r) = core"
proof (cases "core = []")
  case True
  have d: "dropWhile isspace (l @ r) = []" using l r by (auto simp: dropWhile_eq_Nil_conv)
  show ?thesis unfolding True strip_def append_Nil d by simp
next
  case False
  with core have h: "\<not> isspace (hd core)" and e: "\<not> isspace (last core)" by simp_all
  have "dropWhile isspace (l @ core @ r) = dropWhile isspace (core @ r)"
    using l by (simp add: dropWhile_append)
  also have "\<dots> = core @ r"
    using False h by (cases core) auto
  finally have d: "dropWhile isspace (l @ core @ r) = core @ r" .
  have "dropWhile isspace (rev (core @ r)) = dropWhile isspace (rev core)"
    using r by (simp add: dropWhile_append)
  also have "\<dots> = rev core"
    using False e by (cases "rev core") (auto simp: last_rev [symmetric] hd_rev)
  finally show ?thesis using d by (simp add: strip_def)
qed

lemma join_words_ends:
  assumes "\<forall>w\<in>set F. plain_word w" and "F \<noteq> []"
  shows "join_on 32 F \<noteq> [] \<and> word_char (hd (join_on 32 F)) \<and> word_char (last (join_on 32 F))"
  using assms
proof (induction "32::nat" F rule: join_on.induct)
  case 1
  then show ?case by simp
next
  case (2 p)
  then show ?case by (auto simp: plain_word_def list_all_iff)
next
  case (3 p q ps)
  then have "plain_word p" by simp
  then have "p \<noteq> []" "word_char (hd p)" by (auto simp: plain_word_def list_all_iff)
  with 3 show ?case by auto
qed

lemma strip_collapse_join:
  assumes "\<forall>v\<in>set vs. v = [] \<or> plain_word v"
  shows "strip (collapse_spaces (join_on 32 vs)) = join_on 32 (filter (\<lambda>v. v \<noteq> []) vs)"
proof -
  let ?F = "filter (\<lambda>v. v \<noteq> []) vs"
  have free: "\<forall>v\<in>set vs. \<forall>c\<in>set v. \<not> space_char c"
    using assms word_not_space by (auto simp: plain_word_def list_all_iff)
  from collapse_join [OF free] obtain l r where
    lr: "set l \<subseteq> {32}" "set r \<subseteq> {32}" and
    c: "collapse_spaces (join_on 32 vs) = l @ join_on 32 ?F @ r"
    by blast
  have sp: "\<forall>c\<in>set l. isspace c" "\<forall>c\<in>set r. isspace c"
    using lr isspace_32 by auto
  have words: "\<forall>w\<in>set ?F. plain_word w" using assms by auto
  have core: "join_on 32 ?F = [] \<or>
              (\<not> isspace (hd (join_on 32 ?F)) \<and> \<not> isspace (last (join_on 32 ?F)))"
  proof (cases "?F = []")
    case True
    then show ?thesis by simp
  next
    case False
    from join_words_ends [OF words False] show ?thesis using word_not_space by blast
  qed
  show ?thesis unfolding c using sp core by (rule strip_core)
qed

lemma kept_words:
  assumes "\<forall>w\<in>set ws. plain_word w \<or> is_legal_suffix w"
  shows "filter (\<lambda>v. v \<noteq> []) (map (\<lambda>w. if is_legal_suffix w then [] else w) ws) =
           filter (\<lambda>w. \<not> is_legal_suffix w) ws"
  using assms by (induction ws) (auto simp: plain_word_def)

lemma normalize_words:
  assumes "\<forall>w\<in>set ws. plain_word w \<or> is_legal_suffix w"
  shows "strip (collapse_spaces (strip_punctuation (remove_suffixes None (join_on 32 ws)))) =
           join_on 32 (filter (\<lambda>w. \<not> is_legal_suffix w) ws)"
proof -
  let ?g = "\<lambda>w. if is_legal_suffix w then [] else w"
  have "strip_punctuation (remove_suffixes None (join_on 32 ws)) = join_on 32 (map ?g ws)"
    using assms by (rule scan_words) (simp add: nonword_def)
  moreover have "\<forall>v\<in>set (map ?g ws). v = [] \<or> plain_word v"
    using assms by auto
  ultimately show ?thesis
    by (simp add: strip_collapse_join kept_words [OF assms])
qed




end
